theory Spec2Isabelle
  imports Complex_Main "HOL-Library.AList"
begin

section \<open>JavaScript numbers\<close>

text \<open>
  Every number of the viewer is a JavaScript Number: an IEEE-754 binary64 value. A finite
  value is kept as the real it denotes; the three special values are constructors of their
  own. The sign of zero is not kept (\<open>-0\<close> and \<open>+0\<close> are both \<open>Fin 0\<close>).
\<close>

datatype jsnum = Fin real | PInf | NInf | NaN

text \<open>Round to the nearest integer, ties to the even one.\<close>

definition rte :: "real \<Rightarrow> int" where
  "rte y = (let f = \<lfloor>y\<rfloor>; d = y - of_int f
            in if d < 1 / 2 then f else if 1 / 2 < d then f + 1
               else if even f then f else f + 1)"

text \<open>The binade of a positive real: the \<open>e\<close> with \<open>2^e \<le> x < 2^(e+1)\<close>.\<close>

function ilog2 :: "real \<Rightarrow> int" where
  "ilog2 x = (if x \<le> 0 then 0
              else if x < 1 then ilog2 (2 * x) - 1
              else if 2 \<le> x then ilog2 (x / 2) + 1
              else 0)"
  by pat_completeness auto
termination
proof (relation "measure (\<lambda>x. nat \<bar>\<lfloor>log 2 x\<rfloor>\<bar>)")
  show "wf (measure (\<lambda>x. nat \<bar>\<lfloor>log 2 x\<rfloor>\<bar>))" by simp
next
  fix x :: real
  assume "\<not> x \<le> 0" and "x < 1"
  then have "log 2 (2 * x) = 1 + log 2 x" and neg: "log 2 x < 0"
    by (simp_all add: log_mult)
  then have "\<lfloor>log 2 (2 * x)\<rfloor> = 1 + \<lfloor>log 2 x\<rfloor>"
    by simp
  moreover from neg have "\<lfloor>log 2 x\<rfloor> \<le> - 1"
    by (simp add: floor_le_iff)
  ultimately have "nat \<bar>\<lfloor>log 2 (2 * x)\<rfloor>\<bar> < nat \<bar>\<lfloor>log 2 x\<rfloor>\<bar>"
    by linarith
  then show "(2 * x, x) \<in> measure (\<lambda>x. nat \<bar>\<lfloor>log 2 x\<rfloor>\<bar>)"
    by simp
next
  fix x :: real
  assume "\<not> x \<le> 0" and "\<not> x < 1" and "2 \<le> x"
  then have "log 2 (x / 2) = log 2 x - 1" and pos: "1 \<le> log 2 x"
    by (simp_all add: log_divide le_log_iff)
  then have "\<lfloor>log 2 (x / 2)\<rfloor> = \<lfloor>log 2 x\<rfloor> - 1"
    by simp
  moreover from pos have "1 \<le> \<lfloor>log 2 x\<rfloor>"
    by (simp add: le_floor_iff)
  ultimately have "nat \<bar>\<lfloor>log 2 (x / 2)\<rfloor>\<bar> < nat \<bar>\<lfloor>log 2 x\<rfloor>\<bar>"
    by linarith
  then show "(x / 2, x) \<in> measure (\<lambda>x. nat \<bar>\<lfloor>log 2 x\<rfloor>\<bar>)"
    by simp
qed

declare ilog2.simps [simp del]

text \<open>
  The spacing of the doubles around a positive real: 53 significant bits, and the fixed
  spacing \<open>2^-1074\<close> of the subnormal range below \<open>2^-1022\<close>.
\<close>

definition ulp :: "real \<Rightarrow> real" where
  "ulp a = 2 powi (max (ilog2 a) (- 1022) - 52)"

text \<open>The double nearest to a positive real, before the overflow check.\<close>

definition rnd :: "real \<Rightarrow> real" where
  "rnd a = of_int (rte (a / ulp a)) * ulp a"

text \<open>
  Rounding of an exact result to a Number (round to nearest, ties to even): a magnitude
  that rounds to \<open>2^1024\<close> or more overflows to an infinity.
\<close>

definition fl :: "real \<Rightarrow> jsnum" where
  "fl x = (if x = 0 then Fin 0
           else if 2 powi 1024 \<le> rnd \<bar>x\<bar> then (if 0 < x then PInf else NInf)
           else Fin (if 0 < x then rnd \<bar>x\<bar> else - rnd \<bar>x\<bar>))"

text \<open>The arithmetic operators \<open>-\<close>, \<open>*\<close> and \<open>/\<close> of the language.\<close>

fun jsub :: "jsnum \<Rightarrow> jsnum \<Rightarrow> jsnum" where
  "jsub (Fin a) (Fin b) = fl (a - b)"
| "jsub NaN _ = NaN"
| "jsub _ NaN = NaN"
| "jsub PInf PInf = NaN"
| "jsub NInf NInf = NaN"
| "jsub PInf _ = PInf"
| "jsub NInf _ = NInf"
| "jsub _ PInf = NInf"
| "jsub _ NInf = PInf"

fun jmul :: "jsnum \<Rightarrow> jsnum \<Rightarrow> jsnum" where
  "jmul (Fin a) (Fin b) = fl (a * b)"
| "jmul NaN _ = NaN"
| "jmul _ NaN = NaN"
| "jmul (Fin a) PInf = (if a = 0 then NaN else if 0 < a then PInf else NInf)"
| "jmul (Fin a) NInf = (if a = 0 then NaN else if 0 < a then NInf else PInf)"
| "jmul PInf (Fin b) = (if b = 0 then NaN else if 0 < b then PInf else NInf)"
| "jmul NInf (Fin b) = (if b = 0 then NaN else if 0 < b then NInf else PInf)"
| "jmul PInf PInf = PInf"
| "jmul PInf NInf = NInf"
| "jmul NInf PInf = NInf"
| "jmul NInf NInf = PInf"

fun jdiv :: "jsnum \<Rightarrow> jsnum \<Rightarrow> jsnum" where
  "jdiv (Fin a) (Fin b) =
     (if b = 0 then (if a = 0 then NaN else if 0 < a then PInf else NInf)
      else fl (a / b))"
| "jdiv NaN _ = NaN"
| "jdiv _ NaN = NaN"
| "jdiv (Fin a) _ = Fin 0"
| "jdiv PInf (Fin b) = (if 0 \<le> b then PInf else NInf)"
| "jdiv NInf (Fin b) = (if 0 \<le> b then NInf else PInf)"
| "jdiv PInf PInf = NaN"
| "jdiv PInf NInf = NaN"
| "jdiv NInf PInf = NaN"
| "jdiv NInf NInf = NaN"

text \<open>\<open>Math.max\<close> of two arguments; the call with three arguments folds it.\<close>

fun jmax :: "jsnum \<Rightarrow> jsnum \<Rightarrow> jsnum" where
  "jmax NaN _ = NaN"
| "jmax _ NaN = NaN"
| "jmax PInf _ = PInf"
| "jmax _ PInf = PInf"
| "jmax NInf y = y"
| "jmax x NInf = x"
| "jmax (Fin a) (Fin b) = Fin (max a b)"

text \<open>\<open>Math.round\<close>: the nearest integer, a tie going up.\<close>

fun js_round :: "jsnum \<Rightarrow> jsnum" where
  "js_round (Fin x) = Fin (of_int \<lfloor>x + 1 / 2\<rfloor>)"
| "js_round x = x"

text \<open>The comparison \<open>>=\<close>, false as soon as one side is \<open>NaN\<close>.\<close>

fun jge :: "jsnum \<Rightarrow> jsnum \<Rightarrow> bool" where
  "jge NaN _ = False"
| "jge _ NaN = False"
| "jge PInf _ = True"
| "jge _ NInf = True"
| "jge _ PInf = False"
| "jge NInf _ = False"
| "jge (Fin a) (Fin b) = (b \<le> a)"


section \<open>Scene data\<close>

datatype vec3 = Vec3 (vx: jsnum) (vy: jsnum) (vz: jsnum)

text \<open>\<open>Vector3.multiplyScalar\<close> and \<open>Vector3.sub\<close>, componentwise.\<close>

definition multiplyScalar :: "vec3 \<Rightarrow> jsnum \<Rightarrow> vec3" where
  "multiplyScalar v k = Vec3 (jmul (vx v) k) (jmul (vy v) k) (jmul (vz v) k)"

definition vsub :: "vec3 \<Rightarrow> vec3 \<Rightarrow> vec3" where
  "vsub a b = Vec3 (jsub (vx a) (vx b)) (jsub (vy a) (vy b)) (jsub (vz a) (vz b))"

text \<open>
  The three places that call \<open>loader.load\<close>: the base asset \<open>paths[0]\<close>, a further
  asset \<open>paths[i]\<close>, and \<open>_loadKeyModel(code, path)\<close>.
\<close>

datatype loadkind = BaseLoad | SecondaryLoad nat | KeyLoad string string

text \<open>
  The root object of a loaded asset. \<open>oid\<close> is the identity of the JavaScript object and
  \<open>source\<close> records the load that delivered it. \<open>setScalar\<close> writes one value into the
  three components of the scale, so one value is kept (\<open>None\<close> is \<open>undefined\<close>);
  \<open>shadows\<close> holds \<open>castShadow\<close> and \<open>receiveShadow\<close> of the mesh nodes in the order
  \<open>traverse\<close> visits them.
\<close>

record object3d =
  oid :: nat
  source :: loadkind
  o_rotation :: vec3
  o_scale :: "jsnum option"
  o_position :: vec3
  shadows :: "(bool \<times> bool) list"

text \<open>
  What the loader hands to a success callback. The engine computes the bounding box
  (\<open>Box3.setFromObject\<close>, \<open>getCenter\<close>, \<open>getSize\<close>), so its answers for the root with the
  configured rotation set are part of the asset: \<open>bbox_center\<close> and \<open>bbox_size\<close>.
\<close>

record gltf =
  bbox_center :: vec3
  bbox_size :: vec3
  mesh_count :: nat
  animations :: "string list"

text \<open>
  \<open>gltf.scene\<close>: a fresh group at the origin, unrotated, with unit scale and the shadow
  flags off.
\<close>

definition origin :: vec3 where
  "origin = Vec3 (Fin 0) (Fin 0) (Fin 0)"

definition gltf_scene :: "nat \<Rightarrow> loadkind \<Rightarrow> gltf \<Rightarrow> object3d" where
  "gltf_scene n k g =
     \<lparr>oid = n, source = k,
      o_rotation = origin,
      o_scale = Some (Fin 1),
      o_position = origin,
      shadows = replicate (mesh_count g) (False, False)\<rparr>"

record keyslot =
  path_off :: string
  path_on :: string
  mesh :: "object3d option"
  pressed :: bool

datatype keystate = Off | On

definition paths :: "keyslot \<Rightarrow> keystate \<Rightarrow> string" where
  "paths km st = (case st of Off \<Rightarrow> path_off km | On \<Rightarrow> path_on km)"

datatype loading_text = Finalizing | LoadingPct jsnum

datatype logentry = LoadError loadkind | CallbackThrew loadkind

text \<open>
  The fields of \<open>GLBModel\<close> that the loading and key code reads or writes, the counter
  \<open>loaded\<close> of \<open>loadModels\<close>, the three parts of the loading overlay, the console, and the
  loads that were issued and have not called back yet. \<open>scene\<close> holds the asset roots that
  the callbacks add; the lights and the shadow plane of \<open>initScene\<close> are not touched by
  them and are left out.
\<close>

record state =
  modelPaths :: "string list"
  modelRotation :: vec3
  enabledShadow :: bool
  keyModels :: "(string \<times> keyslot) list"
  globalScale :: "jsnum option"
  globalOffset :: "vec3 option"
  scene :: "object3d list"
  mixers :: "(nat \<times> string list) list"
  loaded :: nat
  progressWidth :: "jsnum option"
  loadingText :: "loading_text option"
  overlayHidden :: bool
  console :: "logentry list"
  pending :: "(nat \<times> loadkind) list"
  nextLoad :: nat
  nextObj :: nat

record config =
  cfg_modelPaths :: "string list"
  cfg_keyModels :: "(string \<times> string \<times> string) list"
  cfg_modelRotation :: vec3
  cfg_enabledShadow :: bool

section \<open>The normalization frame\<close>

text \<open>
  The three constants \<open>maxDim\<close>, \<open>scale\<close> and the offset that the base callback computes
  from the bounding box before it stores the last two.
\<close>

definition maxDim :: "gltf \<Rightarrow> jsnum" where
  "maxDim g = (let size = bbox_size g in jmax (jmax (vx size) (vy size)) (vz size))"

definition frame_scale :: "gltf \<Rightarrow> jsnum" where
  "frame_scale g = jdiv (Fin 2) (maxDim g)"

definition frame_offset :: "gltf \<Rightarrow> vec3" where
  "frame_offset g = multiplyScalar (bbox_center g) (frame_scale g)"

section \<open>Loading\<close>

text \<open>\<open>loader.load(path, onLoad, undefined, onError)\<close>: the request is in flight.\<close>

definition issue :: "loadkind \<Rightarrow> state \<Rightarrow> state" where
  "issue k s = s\<lparr>pending := pending s @ [(nextLoad s, k)], nextLoad := Suc (nextLoad s)\<rparr>"

text \<open>\<open>scene.add\<close> and \<open>scene.remove\<close>.\<close>

definition scene_add :: "object3d \<Rightarrow> state \<Rightarrow> state" where
  "scene_add m s = s\<lparr>scene := scene s @ [m]\<rparr>"

definition scene_remove :: "object3d \<Rightarrow> state \<Rightarrow> state" where
  "scene_remove m s = s\<lparr>scene := filter (\<lambda>x. oid x \<noteq> oid m) (scene s)\<rparr>"

text \<open>
  The statements every success callback runs on its root once scale and offset are at
  hand: \<open>rotation.set\<close>, \<open>scale.setScalar\<close>, \<open>position.sub\<close> and the \<open>traverse\<close> that sets
  the shadow flags.
\<close>

definition place :: "state \<Rightarrow> jsnum option \<Rightarrow> vec3 \<Rightarrow> object3d \<Rightarrow> object3d" where
  "place s k off m =
     (let m1 = m\<lparr>o_rotation := modelRotation s\<rparr>;
          m2 = m1\<lparr>o_scale := k\<rparr>;
          m3 = m2\<lparr>o_position := vsub (o_position m2) off\<rparr>
      in m3\<lparr>shadows := map (\<lambda>_. (enabledShadow s, enabledShadow s)) (shadows m3)\<rparr>)"

text \<open>\<open>if (gltf.animations?.length)\<close>: one mixer on the root, one looping action per clip.\<close>

definition bind_animations :: "object3d \<Rightarrow> gltf \<Rightarrow> state \<Rightarrow> state" where
  "bind_animations m g s =
     (if animations g \<noteq> [] then s\<lparr>mixers := mixers s @ [(oid m, animations g)]\<rparr> else s)"

definition loadKeyModel :: "string \<Rightarrow> string \<Rightarrow> state \<Rightarrow> state" where
  "loadKeyModel code path s = issue (KeyLoad code path) s"

definition initKeyModels :: "state \<Rightarrow> state" where
  "initKeyModels s = fold (\<lambda>(code, km). loadKeyModel code (path_off km)) (keyModels s) s"

definition progress_pct :: "nat \<Rightarrow> nat \<Rightarrow> jsnum" where
  "progress_pct ld tot = js_round (jmul (jdiv (Fin (real ld)) (Fin (real tot))) (Fin 100))"

definition updateProgress :: "nat \<Rightarrow> nat \<Rightarrow> state \<Rightarrow> state" where
  "updateProgress ld tot s =
     (let pct = progress_pct ld tot;
          s1 = s\<lparr>progressWidth := Some pct,
                 loadingText := Some (if jge pct (Fin 100) then Finalizing else LoadingPct pct)\<rparr>
      in if ld = tot then initKeyModels (s1\<lparr>overlayHidden := True\<rparr>) else s1)"

text \<open>
  The success callback of the base asset. It computes scale and offset from the bounding
  box, stores them, places and adds the root, counts it, and only then issues the loads of
  \<open>paths[1..]\<close>.
\<close>

definition loadModels_onBase :: "gltf \<Rightarrow> state \<Rightarrow> state" where
  "loadModels_onBase g s =
     (let model0 = gltf_scene (nextObj s) BaseLoad g;
          scale = frame_scale g;
          off = frame_offset g;
          s1 = s\<lparr>nextObj := Suc (nextObj s), globalScale := Some scale, globalOffset := Some off\<rparr>;
          m = place s1 (Some scale) off model0;
          s2 = bind_animations m g (scene_add m s1);
          s3 = s2\<lparr>loaded := Suc (loaded s2)\<rparr>;
          s4 = updateProgress (loaded s3) (length (modelPaths s3)) s3
      in fold (\<lambda>i. issue (SecondaryLoad i)) [1..<length (modelPaths s4)] s4)"

text \<open>
  A success callback that throws is abandoned where it stands; the loader reports the
  exception. \<open>position.sub(undefined)\<close> throws a \<open>TypeError\<close>.
\<close>

definition threw :: "loadkind \<Rightarrow> state \<Rightarrow> state" where
  "threw k s = s\<lparr>console := console s @ [CallbackThrew k]\<rparr>"

definition loadModels_onSecondary :: "nat \<Rightarrow> gltf \<Rightarrow> state \<Rightarrow> state" where
  "loadModels_onSecondary i g s =
     (let m2 = gltf_scene (nextObj s) (SecondaryLoad i) g;
          s1 = s\<lparr>nextObj := Suc (nextObj s)\<rparr>
      in case globalOffset s1 of
           None \<Rightarrow> threw (SecondaryLoad i) s1
         | Some off \<Rightarrow>
             (let m = place s1 (globalScale s1) off m2;
                  s2 = bind_animations m g (scene_add m s1);
                  s3 = s2\<lparr>loaded := Suc (loaded s2)\<rparr>
              in updateProgress (loaded s3) (length (modelPaths s3)) s3))"

text \<open>The error callbacks of \<open>loadModels\<close> and \<open>_loadKeyModel\<close>: \<open>console.error\<close>, nothing else.\<close>

definition onError :: "loadkind \<Rightarrow> state \<Rightarrow> state" where
  "onError k s = s\<lparr>console := console s @ [LoadError k]\<rparr>"

section \<open>Key slots\<close>

text \<open>
  \<open>_setupKeyModels\<close> fills \<open>keyModels\<close> from the configuration, in its order; the two
  listeners it installs are \<open>keydown\<close> and \<open>keyup\<close> below.
\<close>

definition setupKeyModels :: "(string \<times> string \<times> string) list \<Rightarrow> state \<Rightarrow> state" where
  "setupKeyModels kc s =
     s\<lparr>keyModels :=
         fold (\<lambda>(code, p_off, p_on).
                 AList.update code \<lparr>path_off = p_off, path_on = p_on, mesh = None, pressed = False\<rparr>)
              kc (keyModels s)\<rparr>"

definition swapKeyModel :: "string \<Rightarrow> keystate \<Rightarrow> state \<Rightarrow> state" where
  "swapKeyModel code st s =
     (case map_of (keyModels s) code of
        None \<Rightarrow> threw (KeyLoad code []) s
      | Some km \<Rightarrow> loadKeyModel code (paths km st) s)"

definition keydown :: "string \<Rightarrow> state \<Rightarrow> state" where
  "keydown code s =
     (case map_of (keyModels s) code of
        None \<Rightarrow> s
      | Some km \<Rightarrow>
          if \<not> pressed km
          then swapKeyModel code On
                 (s\<lparr>keyModels := AList.update code (km\<lparr>pressed := True\<rparr>) (keyModels s)\<rparr>)
          else s)"

definition keyup :: "string \<Rightarrow> state \<Rightarrow> state" where
  "keyup code s =
     (case map_of (keyModels s) code of
        None \<Rightarrow> s
      | Some km \<Rightarrow>
          if pressed km
          then swapKeyModel code Off
                 (s\<lparr>keyModels := AList.update code (km\<lparr>pressed := False\<rparr>) (keyModels s)\<rparr>)
          else s)"

text \<open>
  The success callback of \<open>_loadKeyModel\<close>. It reads the slot's mesh when it runs, removes
  that mesh from the scene, then places and adds the new root and stores it in the slot.
\<close>

definition loadKeyModel_onLoad :: "string \<Rightarrow> string \<Rightarrow> gltf \<Rightarrow> state \<Rightarrow> state" where
  "loadKeyModel_onLoad code path g s =
     (let m0 = gltf_scene (nextObj s) (KeyLoad code path) g;
          s0 = s\<lparr>nextObj := Suc (nextObj s)\<rparr>
      in case map_of (keyModels s0) code of
           None \<Rightarrow> threw (KeyLoad code path) s0
         | Some km \<Rightarrow>
             (let s1 = (case mesh km of None \<Rightarrow> s0 | Some prev \<Rightarrow> scene_remove prev s0)
              in case globalOffset s1 of
                   None \<Rightarrow> threw (KeyLoad code path) s1
                 | Some off \<Rightarrow>
                     (let m = place s1 (globalScale s1) off m0;
                          s2 = scene_add m s1;
                          s3 = s2\<lparr>keyModels := AList.update code (km\<lparr>mesh := Some m\<rparr>) (keyModels s2)\<rparr>
                      in bind_animations m g s3)))"

section \<open>The session\<close>

text \<open>
  \<open>GLBModel.init\<close>: the fields are set, \<open>loadModels\<close> issues the load of \<open>paths[0]\<close>,
  \<open>_setupKeyModels\<close> arms the key slots.
\<close>

definition loadModels :: "state \<Rightarrow> state" where
  "loadModels s = issue BaseLoad (s\<lparr>loaded := 0\<rparr>)"

definition init :: "config \<Rightarrow> state" where
  "init cfg =
     setupKeyModels (cfg_keyModels cfg)
       (loadModels
          \<lparr>modelPaths = cfg_modelPaths cfg,
           modelRotation = cfg_modelRotation cfg,
           enabledShadow = cfg_enabledShadow cfg,
           keyModels = [],
           globalScale = None,
           globalOffset = None,
           scene = [],
           mixers = [],
           loaded = 0,
           progressWidth = None,
           loadingText = None,
           overlayHidden = False,
           console = [],
           pending = [],
           nextLoad = 0,
           nextObj = 0\<rparr>)"

text \<open>
  What can happen next: a load in flight calls back with an asset or with an error, or a
  key goes down or up. A load calls back at most once; the order is the environment's.
\<close>

datatype event = Loaded nat gltf | Failed nat | KeyDown string | KeyUp string

definition settled :: "nat \<Rightarrow> state \<Rightarrow> state" where
  "settled l s = s\<lparr>pending := filter (\<lambda>p. fst p \<noteq> l) (pending s)\<rparr>"

definition take_pending :: "nat \<Rightarrow> state \<Rightarrow> (loadkind \<times> state) option" where
  "take_pending l s =
     (case map_of (pending s) l of
        None \<Rightarrow> None
      | Some k \<Rightarrow> Some (k, settled l s))"

fun onLoad :: "loadkind \<Rightarrow> gltf \<Rightarrow> state \<Rightarrow> state" where
  "onLoad BaseLoad g s = loadModels_onBase g s"
| "onLoad (SecondaryLoad i) g s = loadModels_onSecondary i g s"
| "onLoad (KeyLoad code path) g s = loadKeyModel_onLoad code path g s"

fun step :: "state \<Rightarrow> event \<Rightarrow> state" where
  "step s (Loaded l g) =
     (case take_pending l s of None \<Rightarrow> s | Some (k, s') \<Rightarrow> onLoad k g s')"
| "step s (Failed l) =
     (case take_pending l s of None \<Rightarrow> s | Some (k, s') \<Rightarrow> onError k s')"
| "step s (KeyDown code) = keydown code s"
| "step s (KeyUp code) = keyup code s"

definition run :: "state \<Rightarrow> event list \<Rightarrow> state" where
  "run s es = foldl step s es"

section \<open>A session used as the running example\<close>

text \<open>
  A base asset, one further part and one key slot; the bounding box of the base asset is
  4 by 2 by 1 around the point (1, 2, 3).
\<close>

definition example_cfg :: config where
  "example_cfg =
     \<lparr>cfg_modelPaths = [''base.glb'', ''wheels.glb''],
      cfg_keyModels = [(''Digit1'', ''light_off.glb'', ''light_on.glb'')],
      cfg_modelRotation = origin,
      cfg_enabledShadow = False\<rparr>"

definition example_base :: gltf where
  "example_base =
     \<lparr>bbox_center = Vec3 (Fin 1) (Fin 2) (Fin 3),
      bbox_size = Vec3 (Fin 4) (Fin 2) (Fin 1),
      mesh_count = 2,
      animations = [''spin'']\<rparr>"

definition example_part :: gltf where
  "example_part =
     \<lparr>bbox_center = origin,
      bbox_size = Vec3 (Fin 1) (Fin 1) (Fin 1),
      mesh_count = 1,
      animations = []\<rparr>"



section \<open>Observations on a session\<close>

text \<open>The loads in flight, by what they load.\<close>

definition in_flight :: "state \<Rightarrow> loadkind list" where
  "in_flight s = map snd (pending s)"

definition is_asset_load :: "loadkind \<Rightarrow> bool" where
  "is_asset_load k = (case k of KeyLoad _ _ \<Rightarrow> False | _ \<Rightarrow> True)"

text \<open>The loads that \<open>_initKeyModels\<close> issues: the off variant of every slot.\<close>

definition key_off_loads :: "state \<Rightarrow> loadkind list" where
  "key_off_loads s = map (\<lambda>x. KeyLoad (fst x) (path_off (snd x))) (keyModels s)"

text \<open>The roots in the scene that a load for the key slot \<open>code\<close> delivered.\<close>

definition key_of :: "string \<Rightarrow> object3d \<Rightarrow> bool" where
  "key_of code m = (case source m of KeyLoad c _ \<Rightarrow> c = code | _ \<Rightarrow> False)"

definition resident :: "state \<Rightarrow> string \<Rightarrow> object3d list" where
  "resident s code = filter (key_of code) (scene s)"

definition slot_mesh :: "state \<Rightarrow> string \<Rightarrow> object3d option" where
  "slot_mesh s code = (case map_of (keyModels s) code of None \<Rightarrow> None | Some km \<Rightarrow> mesh km)"

text \<open>
  A root carries the session's frame: the configured rotation, the stored scale, the
  origin minus the stored offset, and the configured shadow flags on every mesh.
\<close>

definition placed :: "state \<Rightarrow> object3d \<Rightarrow> bool" where
  "placed s m =
     (o_rotation m = modelRotation s \<and>
      o_scale m = globalScale s \<and>
      (case globalOffset s of None \<Rightarrow> False | Some off \<Rightarrow> o_position m = vsub origin off) \<and>
      list_all (\<lambda>f. f = (enabledShadow s, enabledShadow s)) (shadows m))"

text \<open>
  The steps of a run at which the two assignments to \<open>_globalScale\<close> and
  \<open>_globalOffset\<close> execute: they stand in the success callback of the base asset only.
\<close>

fun assigns_frame :: "state \<Rightarrow> event \<Rightarrow> bool" where
  "assigns_frame s (Loaded l g) = (map_of (pending s) l = Some BaseLoad)"
| "assigns_frame s _ = False"

fun frame_assignments :: "state \<Rightarrow> event list \<Rightarrow> nat" where
  "frame_assignments s [] = 0"
| "frame_assignments s (e # es) =
     (if assigns_frame s e then 1 else 0) + frame_assignments (step s e) es"

text \<open>An event that is the callback, either one, of the load \<open>l\<close>.\<close>

fun resolves :: "nat \<Rightarrow> event \<Rightarrow> bool" where
  "resolves l (Loaded l' g) = (l' = l)"
| "resolves l (Failed l') = (l' = l)"
| "resolves l _ = False"

text \<open>
  The two intermediate values of \<open>(loaded / total) * 100\<close> for \<open>loaded \<le> total\<close>: the quotient
  rounded to a double, and its product with 100 rounded to a double.
\<close>

definition pct_quot :: "nat \<Rightarrow> nat \<Rightarrow> real" where
  "pct_quot k N = rnd (real k / real N)"

definition pct_prod :: "nat \<Rightarrow> nat \<Rightarrow> real" where
  "pct_prod k N = rnd (pct_quot k N * 100)"

text \<open>
  The loads that a step issues, in the order of issue: they are the ones in flight
  afterwards whose number the state before had not given out yet.
\<close>

definition issued :: "state \<Rightarrow> event \<Rightarrow> loadkind list" where
  "issued s e = map snd (filter (\<lambda>p. nextLoad s \<le> fst p) (pending (step s e)))"

text \<open>The events that are callbacks of the loader, as opposed to key events.\<close>

fun is_callback :: "event \<Rightarrow> bool" where
  "is_callback (Loaded l g) = True"
| "is_callback (Failed l) = True"
| "is_callback _ = False"

section \<open>Invariants of a session\<close>

definition inv_ids :: "state \<Rightarrow> bool" where
  "inv_ids s =
     (distinct (map fst (pending s)) \<and> (\<forall>p \<in> set (pending s). fst p < nextLoad s) \<and>
      distinct (map oid (scene s)) \<and> (\<forall>m \<in> set (scene s). oid m < nextObj s))"

definition inv_frame :: "state \<Rightarrow> bool" where
  "inv_frame s =
     ((globalScale s = None \<longleftrightarrow> globalOffset s = None) \<and>
      (\<forall>m \<in> set (scene s). placed s m) \<and>
      (BaseLoad \<in> set (in_flight s) \<longrightarrow> globalOffset s = None) \<and>
      (\<forall>p \<in> set (pending s). snd p = BaseLoad \<longrightarrow> fst p = 0))"

definition inv_slots :: "state \<Rightarrow> bool" where
  "inv_slots s =
     (\<forall>code. resident s code = (case slot_mesh s code of None \<Rightarrow> [] | Some m \<Rightarrow> [m]))"

definition inv_count :: "state \<Rightarrow> bool" where
  "inv_count s =
     ((BaseLoad \<in> set (in_flight s) \<longrightarrow>
         loaded s = 0 \<and> (\<forall>k \<in> set (in_flight s). k = BaseLoad \<or> \<not> is_asset_load k)) \<and>
      (globalOffset s = None \<longrightarrow>
         loaded s = 0 \<and> (\<forall>k \<in> set (in_flight s). k = BaseLoad \<or> \<not> is_asset_load k)) \<and>
      loaded s + length (filter is_asset_load (in_flight s)) \<le> max (length (modelPaths s)) 1 \<and>
      (overlayHidden s \<longleftrightarrow> loaded s = length (modelPaths s) \<and> 0 < loaded s) \<and>
      progressWidth s =
        (if loaded s = 0 then None else Some (progress_pct (loaded s) (length (modelPaths s)))))"

definition inv_all :: "state \<Rightarrow> bool" where
  "inv_all s = (inv_ids s \<and> inv_frame s \<and> inv_slots s \<and> inv_count s)"

definition inv_base :: "state \<Rightarrow> bool" where
  "inv_base s =
     (globalOffset s \<noteq> None \<longrightarrow>
        1 \<le> loaded s \<and> (\<exists>m \<in> set (scene s). source m = BaseLoad))"

section \<open>States of the running example\<close>

text \<open>
  The roots of the example session all carry the frame of its base asset: scale 1/2 and
  offset (1/2, 1, 3/2).
\<close>

definition example_root :: "nat \<Rightarrow> loadkind \<Rightarrow> nat \<Rightarrow> object3d" where
  "example_root n k meshes =
     \<lparr>oid = n, source = k,
      o_rotation = origin,
      o_scale = Some (Fin (1 / 2)),
      o_position = Vec3 (Fin (- (1 / 2))) (Fin (- 1)) (Fin (- (3 / 2))),
      shadows = replicate meshes (False, False)\<rparr>"

text \<open>The example session once the base asset has called back.\<close>

definition example_base_loaded :: state where
  "example_base_loaded =
     \<lparr>modelPaths = [''base.glb'', ''wheels.glb''],
      modelRotation = origin,
      enabledShadow = False,
      keyModels = [(''Digit1'', \<lparr>path_off = ''light_off.glb'', path_on = ''light_on.glb'',
                                 mesh = None, pressed = False\<rparr>)],
      globalScale = Some (Fin (1 / 2)),
      globalOffset = Some (Vec3 (Fin (1 / 2)) (Fin 1) (Fin (3 / 2))),
      scene = [example_root 0 BaseLoad 2],
      mixers = [(0, [''spin''])],
      loaded = 1,
      progressWidth = Some (Fin 50),
      loadingText = Some (LoadingPct (Fin 50)),
      overlayHidden = False,
      console = [],
      pending = [(1, SecondaryLoad 1)],
      nextLoad = 2,
      nextObj = 1\<rparr>"

text \<open>
  The example session once both assets are loaded, by what varies afterwards: the mesh and
  the flag of the slot, the roots of the slot in the scene, the loads in flight, the two
  counters and the console.
\<close>

definition example_all_loaded ::
  "object3d option \<Rightarrow> bool \<Rightarrow> object3d list \<Rightarrow> (nat \<times> loadkind) list \<Rightarrow> nat \<Rightarrow> nat \<Rightarrow>
   logentry list \<Rightarrow> state" where
  "example_all_loaded m p roots loads nl no con =
     \<lparr>modelPaths = [''base.glb'', ''wheels.glb''],
      modelRotation = origin,
      enabledShadow = False,
      keyModels = [(''Digit1'', \<lparr>path_off = ''light_off.glb'', path_on = ''light_on.glb'',
                                 mesh = m, pressed = p\<rparr>)],
      globalScale = Some (Fin (1 / 2)),
      globalOffset = Some (Vec3 (Fin (1 / 2)) (Fin 1) (Fin (3 / 2))),
      scene = example_root 0 BaseLoad 2 # example_root 1 (SecondaryLoad 1) 1 # roots,
      mixers = [(0, [''spin''])],
      loaded = 2,
      progressWidth = Some (Fin 100),
      loadingText = Some Finalizing,
      overlayHidden = True,
      console = con,
      pending = loads,
      nextLoad = nl,
      nextObj = no\<rparr>"

definition light_off :: "nat \<Rightarrow> object3d" where
  "light_off n = example_root n (KeyLoad ''Digit1'' ''light_off.glb'') 1"

definition light_on :: "nat \<Rightarrow> object3d" where
  "light_on n = example_root n (KeyLoad ''Digit1'' ''light_on.glb'') 1"

section \<open>The key-swap callback as the specification words it\<close>

text \<open>
  Following the specification, not the source: the success callback of a key-swap load
  with the reference to the previous mesh captured before the load begins, so that
  \<open>prev\<close> is an argument fixed when the load is issued. Everything else is as in
  \<open>loadKeyModel_onLoad\<close>.
\<close>

definition loadKeyModel_onLoad_captured ::
  "object3d option \<Rightarrow> string \<Rightarrow> string \<Rightarrow> gltf \<Rightarrow> state \<Rightarrow> state" where
  "loadKeyModel_onLoad_captured prev code path g s =
     (let m0 = gltf_scene (nextObj s) (KeyLoad code path) g;
          s0 = s\<lparr>nextObj := Suc (nextObj s)\<rparr>
      in case map_of (keyModels s0) code of
           None \<Rightarrow> threw (KeyLoad code path) s0
         | Some km \<Rightarrow>
             (let s1 = (case prev of None \<Rightarrow> s0 | Some pm \<Rightarrow> scene_remove pm s0)
              in case globalOffset s1 of
                   None \<Rightarrow> threw (KeyLoad code path) s1
                 | Some off \<Rightarrow>
                     (let m = place s1 (globalScale s1) off m0;
                          s2 = scene_add m s1;
                          s3 = s2\<lparr>keyModels := AList.update code (km\<lparr>mesh := Some m\<rparr>) (keyModels s2)\<rparr>
                      in bind_animations m g s3)))"

section \<open>Basic facts about the callbacks\<close>

declare step.simps [simp del]

lemma map_of_update_same: "map_of (AList.update k v al) k = Some v"
  by (simp add: update_conv')

lemma fold_issue:
  "fold (\<lambda>x. issue (f x)) xs s =
     s\<lparr>pending := pending s @ enumerate (nextLoad s) (map f xs),
       nextLoad := nextLoad s + length xs\<rparr>"
  by (induction xs arbitrary: s) (simp_all add: issue_def)

lemma initKeyModels_eq:
  "initKeyModels s =
     s\<lparr>pending := pending s @ enumerate (nextLoad s) (key_off_loads s),
       nextLoad := nextLoad s + length (keyModels s)\<rparr>"
proof -
  have h: "(\<lambda>(code, km). loadKeyModel code (path_off km)) =
        (\<lambda>x. issue (KeyLoad (fst x) (path_off (snd x))))"
    by (simp add: fun_eq_iff loadKeyModel_def)
  show ?thesis
    unfolding initKeyModels_def h fold_issue key_off_loads_def by simp
qed

lemmas callback_defs =
  loadModels_onBase_def loadModels_onSecondary_def loadKeyModel_onLoad_def onError_def
  updateProgress_def initKeyModels_eq fold_issue bind_animations_def scene_add_def
  scene_remove_def threw_def keydown_def keyup_def swapKeyModel_def loadKeyModel_def issue_def

lemma step_cases [case_names unknown base secondary key failed keydown keyup]:
  assumes "\<And>l. map_of (pending s) l = None \<Longrightarrow> P s"
    and "\<And>l g. map_of (pending s) l = Some BaseLoad \<Longrightarrow> P (loadModels_onBase g (settled l s))"
    and "\<And>l i g. map_of (pending s) l = Some (SecondaryLoad i) \<Longrightarrow>
           P (loadModels_onSecondary i g (settled l s))"
    and "\<And>l c p g. map_of (pending s) l = Some (KeyLoad c p) \<Longrightarrow>
           P (loadKeyModel_onLoad c p g (settled l s))"
    and "\<And>l k. map_of (pending s) l = Some k \<Longrightarrow> P (onError k (settled l s))"
    and "\<And>c. P (keydown c s)"
    and "\<And>c. P (keyup c s)"
  shows "P (step s e)"
proof (cases e)
  case (Loaded l g)
  show ?thesis
  proof (cases "map_of (pending s) l")
    case None
    with assms(1) show ?thesis by (simp add: Loaded take_pending_def step.simps)
  next
    case (Some k)
    with assms(2,3,4) show ?thesis
      by (cases k) (simp_all add: Loaded take_pending_def step.simps)
  qed
next
  case (Failed l)
  with assms(1,5) show ?thesis
    by (cases "map_of (pending s) l") (simp_all add: take_pending_def step.simps)
next
  case (KeyDown c)
  with assms(6) show ?thesis by (simp add: step.simps)
next
  case (KeyUp c)
  with assms(7) show ?thesis by (simp add: step.simps)
qed

lemma run_induct [consumes 1, case_names step]:
  assumes "P s" and "\<And>s e. P s \<Longrightarrow> P (step s e)"
  shows "P (run s es)"
  using assms(1) unfolding run_def
  by (induction es arbitrary: s) (simp_all add: assms(2))

lemma run_Nil [simp]: "run s [] = s"
  by (simp add: run_def)

lemma run_Cons [simp]: "run s (e # es) = run (step s e) es"
  by (simp add: run_def)

lemma run_append: "run s (es @ es') = run (run s es) es'"
  by (simp add: run_def)

lemma run_snoc: "run s (es @ [e]) = step (run s es) e"
  by (simp add: run_def)

subsection \<open>What each callback does to each field\<close>

lemma settled_fields [simp]:
  "scene (settled l s) = scene s"
  "nextObj (settled l s) = nextObj s"
  "nextLoad (settled l s) = nextLoad s"
  "globalScale (settled l s) = globalScale s"
  "globalOffset (settled l s) = globalOffset s"
  "mixers (settled l s) = mixers s"
  "loaded (settled l s) = loaded s"
  "keyModels (settled l s) = keyModels s"
  "modelPaths (settled l s) = modelPaths s"
  "modelRotation (settled l s) = modelRotation s"
  "enabledShadow (settled l s) = enabledShadow s"
  "console (settled l s) = console s"
  "overlayHidden (settled l s) = overlayHidden s"
  "progressWidth (settled l s) = progressWidth s"
  "loadingText (settled l s) = loadingText s"
  "pending (settled l s) = filter (\<lambda>p. fst p \<noteq> l) (pending s)"
  by (simp_all add: settled_def)

lemma onError_eq: "onError k s = s\<lparr>console := console s @ [LoadError k]\<rparr>"
  by (simp add: onError_def)

lemma onBase_fields:
  "scene (loadModels_onBase g s) =
     scene s @ [place s (Some (frame_scale g)) (frame_offset g) (gltf_scene (nextObj s) BaseLoad g)]"
  "nextObj (loadModels_onBase g s) = Suc (nextObj s)"
  "globalScale (loadModels_onBase g s) = Some (frame_scale g)"
  "globalOffset (loadModels_onBase g s) = Some (frame_offset g)"
  "mixers (loadModels_onBase g s) =
     (if animations g \<noteq> [] then mixers s @ [(nextObj s, animations g)] else mixers s)"
  "loaded (loadModels_onBase g s) = Suc (loaded s)"
  "keyModels (loadModels_onBase g s) = keyModels s"
  "modelPaths (loadModels_onBase g s) = modelPaths s"
  "modelRotation (loadModels_onBase g s) = modelRotation s"
  "enabledShadow (loadModels_onBase g s) = enabledShadow s"
  "console (loadModels_onBase g s) = console s"
  "overlayHidden (loadModels_onBase g s) =
     (overlayHidden s \<or> Suc (loaded s) = length (modelPaths s))"
  "progressWidth (loadModels_onBase g s) =
     Some (progress_pct (Suc (loaded s)) (length (modelPaths s)))"
  "pending (loadModels_onBase g s) =
     pending s @ enumerate (nextLoad s)
       ((if Suc (loaded s) = length (modelPaths s) then key_off_loads s else []) @
        map SecondaryLoad [1..<length (modelPaths s)])"
  by (simp_all add: callback_defs Let_def place_def gltf_scene_def enumerate_append_eq
      key_off_loads_def)

lemma onSecondary_fields:
  assumes "globalOffset s = Some off"
  shows
  "scene (loadModels_onSecondary i g s) =
     scene s @ [place s (globalScale s) off (gltf_scene (nextObj s) (SecondaryLoad i) g)]"
  "nextObj (loadModels_onSecondary i g s) = Suc (nextObj s)"
  "globalScale (loadModels_onSecondary i g s) = globalScale s"
  "globalOffset (loadModels_onSecondary i g s) = globalOffset s"
  "mixers (loadModels_onSecondary i g s) =
     (if animations g \<noteq> [] then mixers s @ [(nextObj s, animations g)] else mixers s)"
  "loaded (loadModels_onSecondary i g s) = Suc (loaded s)"
  "keyModels (loadModels_onSecondary i g s) = keyModels s"
  "modelPaths (loadModels_onSecondary i g s) = modelPaths s"
  "modelRotation (loadModels_onSecondary i g s) = modelRotation s"
  "enabledShadow (loadModels_onSecondary i g s) = enabledShadow s"
  "console (loadModels_onSecondary i g s) = console s"
  "overlayHidden (loadModels_onSecondary i g s) =
     (overlayHidden s \<or> Suc (loaded s) = length (modelPaths s))"
  "progressWidth (loadModels_onSecondary i g s) =
     Some (progress_pct (Suc (loaded s)) (length (modelPaths s)))"
  "pending (loadModels_onSecondary i g s) =
     pending s @ enumerate (nextLoad s)
       (if Suc (loaded s) = length (modelPaths s) then key_off_loads s else [])"
  using assms
  by (simp_all add: callback_defs Let_def place_def gltf_scene_def key_off_loads_def)

lemma onSecondary_threw:
  "globalOffset s = None \<Longrightarrow>
   loadModels_onSecondary i g s =
     s\<lparr>nextObj := Suc (nextObj s), console := console s @ [CallbackThrew (SecondaryLoad i)]\<rparr>"
  by (simp add: callback_defs Let_def)

lemma onKey_fields:
  assumes "globalOffset s = Some off" "map_of (keyModels s) c = Some km"
  shows
  "scene (loadKeyModel_onLoad c p g s) =
     (case mesh km of None \<Rightarrow> scene s | Some prev \<Rightarrow> filter (\<lambda>x. oid x \<noteq> oid prev) (scene s)) @
     [place s (globalScale s) off (gltf_scene (nextObj s) (KeyLoad c p) g)]"
  "nextObj (loadKeyModel_onLoad c p g s) = Suc (nextObj s)"
  "globalScale (loadKeyModel_onLoad c p g s) = globalScale s"
  "globalOffset (loadKeyModel_onLoad c p g s) = globalOffset s"
  "mixers (loadKeyModel_onLoad c p g s) =
     (if animations g \<noteq> [] then mixers s @ [(nextObj s, animations g)] else mixers s)"
  "loaded (loadKeyModel_onLoad c p g s) = loaded s"
  "keyModels (loadKeyModel_onLoad c p g s) =
     AList.update c (km\<lparr>mesh := Some (place s (globalScale s) off (gltf_scene (nextObj s) (KeyLoad c p) g))\<rparr>)
       (keyModels s)"
  "modelPaths (loadKeyModel_onLoad c p g s) = modelPaths s"
  "modelRotation (loadKeyModel_onLoad c p g s) = modelRotation s"
  "enabledShadow (loadKeyModel_onLoad c p g s) = enabledShadow s"
  "console (loadKeyModel_onLoad c p g s) = console s"
  "overlayHidden (loadKeyModel_onLoad c p g s) = overlayHidden s"
  "progressWidth (loadKeyModel_onLoad c p g s) = progressWidth s"
  "pending (loadKeyModel_onLoad c p g s) = pending s"
  "nextLoad (loadKeyModel_onLoad c p g s) = nextLoad s"
  using assms
  by (simp_all add: callback_defs Let_def place_def gltf_scene_def split: option.splits)

lemma onKey_threw:
  "globalOffset s = None \<or> map_of (keyModels s) c = None \<Longrightarrow>
   loadKeyModel_onLoad c p g s =
     s\<lparr>nextObj := Suc (nextObj s),
       scene := (case slot_mesh s c of None \<Rightarrow> scene s
                 | Some prev \<Rightarrow> filter (\<lambda>x. oid x \<noteq> oid prev) (scene s)),
       console := console s @ [CallbackThrew (KeyLoad c p)]\<rparr>"
  by (auto simp: callback_defs Let_def slot_mesh_def split: option.splits)

lemma keydown_eq:
  "keydown c s =
     (case map_of (keyModels s) c of
        None \<Rightarrow> s
      | Some km \<Rightarrow>
          if pressed km then s
          else s\<lparr>keyModels := AList.update c (km\<lparr>pressed := True\<rparr>) (keyModels s),
                 pending := pending s @ [(nextLoad s, KeyLoad c (path_on km))],
                 nextLoad := Suc (nextLoad s)\<rparr>)"
  by (simp add: keydown_def swapKeyModel_def loadKeyModel_def issue_def map_of_update_same
      paths_def split: option.splits)

lemma keyup_eq:
  "keyup c s =
     (case map_of (keyModels s) c of
        None \<Rightarrow> s
      | Some km \<Rightarrow>
          if pressed km
          then s\<lparr>keyModels := AList.update c (km\<lparr>pressed := False\<rparr>) (keyModels s),
                 pending := pending s @ [(nextLoad s, KeyLoad c (path_off km))],
                 nextLoad := Suc (nextLoad s)\<rparr>
          else s)"
  by (simp add: keyup_def swapKeyModel_def loadKeyModel_def issue_def map_of_update_same
      paths_def split: option.splits)

section \<open>The invariants hold in every session\<close>

subsection \<open>Identities are fresh\<close>

lemma inv_ids_settled: "inv_ids s \<Longrightarrow> inv_ids (settled l s)"
  by (auto simp: inv_ids_def distinct_map_filter)

lemma inv_ids_grow:
  assumes "inv_ids s"
    and "pending s' = pending s @ enumerate (nextLoad s) ks"
    and "nextLoad s' = nextLoad s + length ks"
    and "scene s' = scene s \<or> (\<exists>m. scene s' = scene s @ [m] \<and> oid m = nextObj s) \<or>
         (\<exists>q. scene s' = filter q (scene s)) \<or>
         (\<exists>q m. scene s' = filter q (scene s) @ [m] \<and> oid m = nextObj s)"
    and "nextObj s < nextObj s'"
  shows "inv_ids s'"
proof -
  from assms(1) have d: "distinct (map fst (pending s))" and b: "\<forall>p \<in> set (pending s). fst p < nextLoad s"
    and ds: "distinct (map oid (scene s))" and bs: "\<forall>m \<in> set (scene s). oid m < nextObj s"
    by (simp_all add: inv_ids_def)
  have 1: "distinct (map fst (pending s'))"
    using d b by (auto simp: assms(2))
  have 2: "\<forall>p \<in> set (pending s'). fst p < nextLoad s'"
    using b by (auto simp: assms(2,3) in_set_enumerate_eq)
  from bs have fresh: "nextObj s \<notin> oid ` set (scene s)" by auto
  then have fresh': "\<And>q. nextObj s \<notin> oid ` set (filter q (scene s))" by auto
  from assms(4) have 3: "distinct (map oid (scene s'))"
  proof (elim disjE exE conjE)
    assume "scene s' = scene s"
    with ds show ?thesis by simp
  next
    fix m assume "scene s' = scene s @ [m]" "oid m = nextObj s"
    with ds fresh show ?thesis by simp
  next
    fix q assume "scene s' = filter q (scene s)"
    with ds show ?thesis by (simp add: distinct_map_filter)
  next
    fix q m assume "scene s' = filter q (scene s) @ [m]" "oid m = nextObj s"
    with ds fresh' [of q] show ?thesis by (simp add: distinct_map_filter)
  qed
  from bs assms(5) have bs': "\<And>m. m \<in> set (scene s) \<Longrightarrow> oid m < nextObj s'"
    by fastforce
  from assms(4) have 4: "\<forall>m \<in> set (scene s'). oid m < nextObj s'"
  proof (elim disjE exE conjE)
    assume "scene s' = scene s"
    with bs' show ?thesis by simp
  next
    fix m assume "scene s' = scene s @ [m]" "oid m = nextObj s"
    with bs' assms(5) show ?thesis by auto
  next
    fix q assume "scene s' = filter q (scene s)"
    with bs' show ?thesis by simp
  next
    fix q m assume "scene s' = filter q (scene s) @ [m]" "oid m = nextObj s"
    with bs' assms(5) show ?thesis by auto
  qed
  from 1 2 3 4 show ?thesis by (simp add: inv_ids_def)
qed

lemma oid_place [simp]: "oid (place s k off m) = oid m"
  by (simp add: place_def Let_def)

lemma source_place [simp]: "source (place s k off m) = source m"
  by (simp add: place_def Let_def)

lemma oid_gltf_scene [simp]: "oid (gltf_scene n k g) = n"
  by (simp add: gltf_scene_def)

lemma source_gltf_scene [simp]: "source (gltf_scene n k g) = k"
  by (simp add: gltf_scene_def)

lemma length_key_off_loads [simp]: "length (key_off_loads s) = length (keyModels s)"
  by (simp add: key_off_loads_def)

lemma nextLoad_onBase:
  "nextLoad (loadModels_onBase g s) =
     nextLoad s + length ((if Suc (loaded s) = length (modelPaths s) then key_off_loads s else []) @
        map SecondaryLoad [1..<length (modelPaths s)])"
  by (auto simp: callback_defs Let_def)

lemma nextLoad_onSecondary:
  "globalOffset s = Some off \<Longrightarrow>
   nextLoad (loadModels_onSecondary i g s) =
     nextLoad s + length (if Suc (loaded s) = length (modelPaths s) then key_off_loads s else [])"
  by (simp add: callback_defs Let_def)

lemma inv_ids_step: "inv_ids s \<Longrightarrow> inv_ids (step s e)"
proof (induction s e rule: step_cases)
  case (unknown l)
  then show ?case by simp
next
  case (base l g)
  then have "inv_ids (settled l s)" by (simp add: inv_ids_settled)
  then show ?case
    by (rule inv_ids_grow) (simp_all only: onBase_fields nextLoad_onBase, simp_all)
next
  case (secondary l i g)
  then have i: "inv_ids (settled l s)" by (simp add: inv_ids_settled)
  show ?case
  proof (cases "globalOffset s")
    case None
    with i show ?thesis by (auto simp: onSecondary_threw inv_ids_def less_Suc_eq)
  next
    case (Some off)
    then have o: "globalOffset (settled l s) = Some off" by simp
    from i show ?thesis
      by (rule inv_ids_grow)
        (simp_all only: onSecondary_fields [OF o] nextLoad_onSecondary [OF o], simp_all)
  qed
next
  case (key l c p g)
  then have i: "inv_ids (settled l s)" by (simp add: inv_ids_settled)
  show ?case
  proof (cases "globalOffset s = None \<or> map_of (keyModels s) c = None")
    case True
    then have t: "globalOffset (settled l s) = None \<or> map_of (keyModels (settled l s)) c = None"
      by simp
    from i show ?thesis unfolding onKey_threw [OF t]
      by (rule inv_ids_grow [where ks = "[]"]) (auto split: option.splits)
  next
    case False
    then obtain off km where o: "globalOffset (settled l s) = Some off"
      and k: "map_of (keyModels (settled l s)) c = Some km" by auto
    from i show ?thesis
      by (rule inv_ids_grow [where ks = "[]"])
        (auto simp: onKey_fields [OF o k] split: option.splits)
  qed
next
  case (failed l k)
  then have "inv_ids (settled l s)" by (simp add: inv_ids_settled)
  then show ?case by (simp add: onError_eq inv_ids_def)
next
  case (keydown c)
  then show ?case
    by (auto simp: keydown_eq inv_ids_def less_Suc_eq split: option.splits)
next
  case (keyup c)
  then show ?case
    by (auto simp: keyup_eq inv_ids_def less_Suc_eq split: option.splits)
qed

subsection \<open>The frame is set once and carried by every root\<close>

lemma place_fields [simp]:
  "o_rotation (place s k off m) = modelRotation s"
  "o_scale (place s k off m) = k"
  "o_position (place s k off m) = vsub (o_position m) off"
  "shadows (place s k off m) = map (\<lambda>_. (enabledShadow s, enabledShadow s)) (shadows m)"
  by (simp_all add: place_def Let_def)

lemma o_position_gltf_scene [simp]: "o_position (gltf_scene n k g) = origin"
  by (simp add: gltf_scene_def)

lemma shadows_gltf_scene [simp]: "shadows (gltf_scene n k g) = replicate (mesh_count g) (False, False)"
  by (simp add: gltf_scene_def)

lemma placed_place:
  "globalOffset s' = Some off \<Longrightarrow> globalScale s' = k \<Longrightarrow> modelRotation s' = modelRotation s \<Longrightarrow>
   enabledShadow s' = enabledShadow s \<Longrightarrow> placed s' (place s k off (gltf_scene n kd g))"
  by (simp add: placed_def list_all_iff)

lemma placed_cong:
  "modelRotation s' = modelRotation s \<Longrightarrow> globalScale s' = globalScale s \<Longrightarrow>
   globalOffset s' = globalOffset s \<Longrightarrow> enabledShadow s' = enabledShadow s \<Longrightarrow>
   placed s' m = placed s m"
  by (simp add: placed_def)

lemma placed_imp_offset: "placed s m \<Longrightarrow> \<exists>off. globalOffset s = Some off"
  by (cases "globalOffset s") (simp_all add: placed_def)

lemma in_flight_settled: "set (in_flight (settled l s)) \<subseteq> set (in_flight s)"
  by (auto simp: in_flight_def)

lemma snd_set_enumerate [simp]: "snd ` set (enumerate n ks) = set ks"
  by (metis map_snd_enumerate set_map)

lemma BaseLoad_not_key_off [simp]: "BaseLoad \<notin> set (key_off_loads s)"
  by (auto simp: key_off_loads_def)

lemma inv_frame_scene_empty: "inv_frame s \<Longrightarrow> globalOffset s = None \<Longrightarrow> scene s = []"
proof (cases "scene s")
  case Nil
  then show ?thesis by simp
next
  case (Cons m ms)
  assume "inv_frame s" "globalOffset s = None"
  with Cons show ?thesis by (auto simp: inv_frame_def dest: placed_imp_offset)
qed

lemma inv_frame_grow:
  assumes "inv_frame s"
    and "pending s' = filter q (pending s) @ enumerate n ks" and "BaseLoad \<notin> set ks"
    and "globalScale s' = globalScale s" and "globalOffset s' = globalOffset s"
    and "modelRotation s' = modelRotation s" and "enabledShadow s' = enabledShadow s"
    and "\<forall>m \<in> set (scene s'). m \<in> set (scene s) \<or> placed s m"
  shows "inv_frame s'"
proof -
  have pl: "\<And>m. placed s' m = placed s m"
    by (simp add: placed_def assms(4-7))
  have 1: "globalScale s' = None \<longleftrightarrow> globalOffset s' = None"
    using assms(1,4,5) by (simp add: inv_frame_def)
  have 2: "\<forall>m \<in> set (scene s'). placed s' m"
    using assms(1,8) by (auto simp: pl inv_frame_def)
  have 3: "BaseLoad \<in> set (in_flight s') \<longrightarrow> globalOffset s' = None"
    using assms(1,3) by (auto simp: inv_frame_def in_flight_def assms(2,5) image_Un)
  have "\<And>p. p \<in> set (enumerate n ks) \<Longrightarrow> snd p \<in> set ks"
    using snd_set_enumerate [of n ks] by blast
  with assms(1,3) have 4: "\<forall>p \<in> set (pending s'). snd p = BaseLoad \<longrightarrow> fst p = 0"
    by (auto simp: inv_frame_def assms(2))
  from 1 2 3 4 show ?thesis by (simp add: inv_frame_def)
qed

lemma filter_True_self: "filter (\<lambda>_. True) xs = xs"
  by simp

lemma inv_frame_step: "inv_frame s \<Longrightarrow> inv_frame (step s e)"
proof (induction s e rule: step_cases)
  case (unknown l)
  then show ?case by simp
next
  case (base l g)
  from base(1) have mem: "(l, BaseLoad) \<in> set (pending s)" by (rule map_of_SomeD)
  with base(2) have l0: "l = 0" by (force simp: inv_frame_def)
  from mem have "BaseLoad \<in> set (in_flight s)" by (force simp: in_flight_def)
  with base(2) have off: "globalOffset s = None" by (simp add: inv_frame_def)
  with base(2) have sc: "scene s = []" by (rule inv_frame_scene_empty)
  from base(2) l0 have nb: "BaseLoad \<notin> snd ` set (filter (\<lambda>p. fst p \<noteq> l) (pending s))"
    by (auto simp: inv_frame_def)
  let ?s' = "loadModels_onBase g (settled l s)"
  have 2: "\<forall>m \<in> set (scene ?s'). placed ?s' m"
    by (simp add: onBase_fields sc placed_place)
  have nb': "BaseLoad \<notin> snd ` set (pending ?s')"
    using nb by (auto simp: onBase_fields image_Un)
  then have 3: "BaseLoad \<notin> set (in_flight ?s')" by (simp add: in_flight_def)
  from nb' have 4: "\<forall>p \<in> set (pending ?s'). snd p = BaseLoad \<longrightarrow> fst p = 0" by force
  from 2 3 4 show ?case by (simp add: inv_frame_def onBase_fields(3,4))
next
  case (secondary l i g)
  show ?case
  proof (cases "globalOffset s")
    case None
    with secondary(2) show ?thesis
      by (intro inv_frame_grow [OF secondary(2), where ks = "[]" and q = "\<lambda>p. fst p \<noteq> l"])
        (simp_all add: onSecondary_threw)
  next
    case (Some off)
    then have o: "globalOffset (settled l s) = Some off" by simp
    show ?thesis
      by (rule inv_frame_grow [OF secondary(2), where q = "\<lambda>p. fst p \<noteq> l"])
        (auto simp: onSecondary_fields [OF o] Some intro!: placed_place)
  qed
next
  case (key l c p g)
  show ?case
  proof (cases "globalOffset s = None \<or> map_of (keyModels s) c = None")
    case True
    then have t: "globalOffset (settled l s) = None \<or> map_of (keyModels (settled l s)) c = None"
      by simp
    show ?thesis unfolding onKey_threw [OF t]
      by (rule inv_frame_grow [OF key(2), where ks = "[]" and q = "\<lambda>p. fst p \<noteq> l"])
        (auto split: option.splits)
  next
    case False
    then obtain off km where o: "globalOffset (settled l s) = Some off"
      and k: "map_of (keyModels (settled l s)) c = Some km" by auto
    from o have o': "globalOffset s = Some off" by simp
    show ?thesis
      by (rule inv_frame_grow [OF key(2), where ks = "[]" and q = "\<lambda>p. fst p \<noteq> l"])
        (auto simp: onKey_fields [OF o k] o' split: option.splits intro!: placed_place)
  qed
next
  case (failed l k)
  show ?case
    by (rule inv_frame_grow [OF failed(2), where ks = "[]" and q = "\<lambda>p. fst p \<noteq> l"])
      (simp_all add: onError_eq)
next
  case (keydown c)
  show ?case
  proof (cases "map_of (keyModels s) c")
    case None
    with keydown show ?thesis by (simp add: keydown_eq)
  next
    case (Some km)
    show ?thesis
    proof (cases "pressed km")
      case True
      with Some keydown show ?thesis by (simp add: keydown_eq)
    next
      case False
      show ?thesis
        by (rule inv_frame_grow [OF keydown, where ks = "[KeyLoad c (path_on km)]"
              and q = "\<lambda>_. True" and n = "nextLoad s"])
          (simp_all add: keydown_eq Some False)
    qed
  qed
next
  case (keyup c)
  show ?case
  proof (cases "map_of (keyModels s) c")
    case None
    with keyup show ?thesis by (simp add: keyup_eq)
  next
    case (Some km)
    show ?thesis
    proof (cases "pressed km")
      case False
      with Some keyup show ?thesis by (simp add: keyup_eq)
    next
      case True
      show ?thesis
        by (rule inv_frame_grow [OF keyup, where ks = "[KeyLoad c (path_off km)]"
              and q = "\<lambda>_. True" and n = "nextLoad s"])
          (simp_all add: keyup_eq Some True)
    qed
  qed
qed

subsection \<open>A slot's resident roots are the mesh it references\<close>

lemma slot_mesh_settled [simp]: "slot_mesh (settled l s) c = slot_mesh s c"
  by (simp add: slot_mesh_def)

lemma resident_settled [simp]: "resident (settled l s) c = resident s c"
  by (simp add: resident_def)

lemma inv_slots_settled [simp]: "inv_slots (settled l s) = inv_slots s"
  by (simp add: inv_slots_def)

lemma slot_mesh_pressed:
  "map_of (keyModels s) c = Some km \<Longrightarrow>
   slot_mesh (s\<lparr>keyModels := AList.update c (km\<lparr>pressed := b\<rparr>) (keyModels s), pending := ps,
                nextLoad := n\<rparr>) c' = slot_mesh s c'"
  by (simp add: slot_mesh_def update_conv')

lemma inv_slots_same:
  assumes "inv_slots s" and "\<And>c. slot_mesh s' c = slot_mesh s c"
    and "scene s' = scene s \<or> (\<exists>m. scene s' = scene s @ [m] \<and> is_asset_load (source m))"
  shows "inv_slots s'"
proof -
  have nk: "\<And>c m. is_asset_load (source m) \<Longrightarrow> \<not> key_of c m"
    by (simp add: key_of_def is_asset_load_def split: loadkind.splits)
  have "\<And>c. resident s' c = resident s c"
    using assms(3) by (auto simp: resident_def nk)
  with assms(1,2) show ?thesis by (simp add: inv_slots_def)
qed

lemma slot_mesh_key_of: "inv_slots s \<Longrightarrow> slot_mesh s c = Some m \<Longrightarrow> key_of c m \<and> m \<in> set (scene s)"
proof -
  assume "inv_slots s" "slot_mesh s c = Some m"
  then have "filter (key_of c) (scene s) = [m]" by (simp add: inv_slots_def resident_def)
  then have "m \<in> set (filter (key_of c) (scene s))" by simp
  then show ?thesis by simp
qed

lemma key_of_unique: "key_of c m \<Longrightarrow> key_of c' m \<Longrightarrow> c = c'"
  by (auto simp: key_of_def split: loadkind.splits)

lemma inv_slots_step:
  assumes "inv_ids s" "inv_frame s" "inv_slots s"
  shows "inv_slots (step s e)"
  using assms
proof (induction s e rule: step_cases)
  case (unknown l)
  then show ?case by simp
next
  case (base l g)
  then have "inv_slots (settled l s)" by simp
  then show ?case
    by (rule inv_slots_same) (simp_all add: slot_mesh_def onBase_fields is_asset_load_def)
next
  case (secondary l i g)
  then have i: "inv_slots (settled l s)" by simp
  show ?case
  proof (cases "globalOffset s")
    case None
    from i show ?thesis
      by (rule inv_slots_same) (simp_all add: onSecondary_threw None slot_mesh_def)
  next
    case (Some off)
    then have o: "globalOffset (settled l s) = Some off" by simp
    from i show ?thesis
      by (rule inv_slots_same)
        (simp_all add: slot_mesh_def onSecondary_fields [OF o] is_asset_load_def)
  qed
next
  case (key l c p g)
  show ?case
  proof (cases "globalOffset s = None \<or> map_of (keyModels s) c = None")
    case True
    then have t: "globalOffset (settled l s) = None \<or> map_of (keyModels (settled l s)) c = None"
      by simp
    have "slot_mesh s c = None"
    proof (cases "slot_mesh s c")
      case None
      then show ?thesis .
    next
      case (Some m)
      with key(4) have "m \<in> set (scene s)" by (simp add: slot_mesh_key_of)
      with key(3) have "globalOffset s \<noteq> None" by (auto simp: inv_frame_def dest: placed_imp_offset)
      moreover from Some have "map_of (keyModels s) c \<noteq> None"
        by (auto simp: slot_mesh_def split: option.splits)
      ultimately show ?thesis using True by auto
    qed
    then have sc: "scene (loadKeyModel_onLoad c p g (settled l s)) = scene s"
      by (simp add: onKey_threw [OF t])
    from key(4) show ?thesis
      by (rule inv_slots_same) (simp_all add: sc, simp add: onKey_threw [OF t] slot_mesh_def)
  next
    case False
    then obtain off km where o: "globalOffset (settled l s) = Some off"
      and k: "map_of (keyModels (settled l s)) c = Some km" by auto
    let ?m = "place (settled l s) (globalScale (settled l s)) off
                (gltf_scene (nextObj (settled l s)) (KeyLoad c p) g)"
    let ?s' = "loadKeyModel_onLoad c p g (settled l s)"
    from k have sm: "slot_mesh s c = mesh km" by (simp add: slot_mesh_def)
    have km: "key_of c ?m" by (simp add: key_of_def)
    have mesh': "\<And>c'. slot_mesh ?s' c' = (if c' = c then Some ?m else slot_mesh s c')"
      by (simp add: slot_mesh_def onKey_fields [OF o k] update_conv')
    have "resident ?s' c' = (case slot_mesh ?s' c' of None \<Rightarrow> [] | Some m \<Rightarrow> [m])" for c'
    proof (cases "mesh km")
      case None
      have sc: "scene ?s' = scene s @ [?m]" by (simp add: onKey_fields [OF o k] None)
      show ?thesis
      proof (cases "c' = c")
        case True
        from key(4) sm None have "resident s c = []" by (simp add: inv_slots_def)
        with True km show ?thesis by (simp add: resident_def sc mesh')
      next
        case False
        with km have "\<not> key_of c' ?m" by (auto dest: key_of_unique)
        with False key(4) show ?thesis by (simp add: resident_def sc mesh' inv_slots_def)
      qed
    next
      case (Some prev)
      have sc: "scene ?s' = filter (\<lambda>x. oid x \<noteq> oid prev) (scene s) @ [?m]"
        by (simp add: onKey_fields [OF o k] Some)
      from key(4) sm Some have rp: "resident s c = [prev]" by (simp add: inv_slots_def)
      from key(4) sm Some have pk: "key_of c prev" and pin: "prev \<in> set (scene s)"
        by (simp_all add: slot_mesh_key_of)
      show ?thesis
      proof (cases "c' = c")
        case True
        have "filter (key_of c) (filter (\<lambda>x. oid x \<noteq> oid prev) (scene s)) =
              filter (\<lambda>x. oid x \<noteq> oid prev) (filter (key_of c) (scene s))"
          by (simp add: conj_commute)
        also have "\<dots> = []" using rp by (simp add: resident_def)
        finally show ?thesis using True km by (simp add: resident_def sc mesh')
      next
        case False
        with km have nk: "\<not> key_of c' ?m" by (auto dest: key_of_unique)
        have "filter (key_of c') (filter (\<lambda>x. oid x \<noteq> oid prev) (scene s)) =
              filter (\<lambda>x. oid x \<noteq> oid prev) (resident s c')"
          by (simp add: conj_commute resident_def)
        also have "\<dots> = resident s c'"
        proof (cases "slot_mesh s c'")
          case None
          with key(4) show ?thesis by (simp add: inv_slots_def)
        next
          case (Some m')
          with key(4) have r: "resident s c' = [m']" by (simp add: inv_slots_def)
          from key(4) Some have mk: "key_of c' m'" and min: "m' \<in> set (scene s)"
            by (simp_all add: slot_mesh_key_of)
          have "oid m' \<noteq> oid prev"
          proof
            assume e: "oid m' = oid prev"
            from key(2) have "inj_on oid (set (scene s))"
              by (simp add: inv_ids_def distinct_map)
            with e min pin have "m' = prev" by (auto dest: inj_onD)
            with mk pk False show False by (auto dest: key_of_unique)
          qed
          with r show ?thesis by simp
        qed
        finally show ?thesis using False nk key(4)
          by (simp add: resident_def sc mesh' inv_slots_def)
      qed
    qed
    then show ?thesis by (simp add: inv_slots_def)
  qed
next
  case (failed l k)
  then have "inv_slots (settled l s)" by simp
  then show ?case
    by (rule inv_slots_same) (simp_all add: onError_eq slot_mesh_def)
next
  case (keydown c)
  show ?case
  proof (cases "map_of (keyModels s) c")
    case None
    with keydown show ?thesis by (simp add: keydown_eq)
  next
    case (Some km)
    from keydown(3) show ?thesis
      by (rule inv_slots_same) (simp_all add: keydown_eq Some slot_mesh_pressed)
  qed
next
  case (keyup c)
  show ?case
  proof (cases "map_of (keyModels s) c")
    case None
    with keyup show ?thesis by (simp add: keyup_eq)
  next
    case (Some km)
    from keyup(3) show ?thesis
      by (rule inv_slots_same) (simp_all add: keyup_eq Some slot_mesh_pressed)
  qed
qed

subsection \<open>The counter follows the callbacks\<close>

lemma asset_key_off [simp]: "filter is_asset_load (key_off_loads s) = []"
  by (auto simp: key_off_loads_def is_asset_load_def filter_empty_conv)

lemma asset_secondary [simp]: "filter is_asset_load (map SecondaryLoad xs) = map SecondaryLoad xs"
  by (induction xs) (simp_all add: is_asset_load_def)

lemma in_flight_settled_eq: "in_flight (settled l s) = map snd (filter (\<lambda>p. fst p \<noteq> l) (pending s))"
  by (simp add: in_flight_def)

lemma asset_count_settled_le:
  "length (filter P (map snd (filter q ps))) \<le> length (filter P (map snd ps))"
  by (induction ps) auto

lemma asset_count_settled_less:
  "map_of ps l = Some k \<Longrightarrow> P k \<Longrightarrow>
   length (filter P (map snd (filter (\<lambda>p. fst p \<noteq> l) ps))) < length (filter P (map snd ps))"
proof (induction ps)
  case Nil
  then show ?case by simp
next
  case (Cons p ps)
  show ?case
  proof (cases "fst p = l")
    case True
    with Cons.prems have "P (snd p)" by (cases p) auto
    with True show ?thesis
      using asset_count_settled_le [of P "\<lambda>p. fst p \<noteq> l" ps] by simp
  next
    case False
    with Cons.prems have "map_of ps l = Some k" by (cases p) auto
    with Cons.IH Cons.prems(2) False show ?thesis by simp
  qed
qed

lemma inv_countI:
  assumes "BaseLoad \<in> set (in_flight s) \<Longrightarrow>
             loaded s = 0 \<and> (\<forall>k \<in> set (in_flight s). k = BaseLoad \<or> \<not> is_asset_load k)"
    and "globalOffset s = None \<Longrightarrow>
             loaded s = 0 \<and> (\<forall>k \<in> set (in_flight s). k = BaseLoad \<or> \<not> is_asset_load k)"
    and "loaded s + length (filter is_asset_load (in_flight s)) \<le> max (length (modelPaths s)) 1"
    and "overlayHidden s \<longleftrightarrow> loaded s = length (modelPaths s) \<and> 0 < loaded s"
    and "progressWidth s =
           (if loaded s = 0 then None else Some (progress_pct (loaded s) (length (modelPaths s))))"
  shows "inv_count s"
  unfolding inv_count_def using assms by blast

lemma inv_countD:
  assumes "inv_count s"
  shows "BaseLoad \<in> set (in_flight s) \<Longrightarrow> loaded s = 0"
    and "BaseLoad \<in> set (in_flight s) \<Longrightarrow> k \<in> set (in_flight s) \<Longrightarrow> is_asset_load k \<Longrightarrow> k = BaseLoad"
    and "globalOffset s = None \<Longrightarrow> loaded s = 0"
    and "globalOffset s = None \<Longrightarrow> k \<in> set (in_flight s) \<Longrightarrow> is_asset_load k \<Longrightarrow> k = BaseLoad"
    and "loaded s + length (filter is_asset_load (in_flight s)) \<le> max (length (modelPaths s)) 1"
    and "overlayHidden s \<Longrightarrow> loaded s = length (modelPaths s)"
    and "overlayHidden s \<Longrightarrow> 0 < loaded s"
    and "loaded s = length (modelPaths s) \<Longrightarrow> 0 < loaded s \<Longrightarrow> overlayHidden s"
    and "progressWidth s =
           (if loaded s = 0 then None else Some (progress_pct (loaded s) (length (modelPaths s))))"
  using assms unfolding inv_count_def by blast+

lemma onKey_unchanged:
  "loaded (loadKeyModel_onLoad c p g s) = loaded s \<and>
   modelPaths (loadKeyModel_onLoad c p g s) = modelPaths s \<and>
   overlayHidden (loadKeyModel_onLoad c p g s) = overlayHidden s \<and>
   progressWidth (loadKeyModel_onLoad c p g s) = progressWidth s \<and>
   globalOffset (loadKeyModel_onLoad c p g s) = globalOffset s \<and>
   globalScale (loadKeyModel_onLoad c p g s) = globalScale s \<and>
   pending (loadKeyModel_onLoad c p g s) = pending s"
proof (cases "globalOffset s = None \<or> map_of (keyModels s) c = None")
  case True
  show ?thesis by (simp add: onKey_threw [OF True])
next
  case False
  then obtain off km where o: "globalOffset s = Some off"
    and k: "map_of (keyModels s) c = Some km" by auto
  show ?thesis by (simp add: onKey_fields [OF o k])
qed

lemma inv_count_step:
  assumes "inv_frame s" "inv_count s"
  shows "inv_count (step s e)"
  using assms
proof (induction s e rule: step_cases)
  case (unknown l)
  then show ?case by simp
next
  case (base l g)
  let ?t = "settled l s"
  let ?s' = "loadModels_onBase g ?t"
  note d = inv_countD [OF base(3)]
  from base(1) have mem: "(l, BaseLoad) \<in> set (pending s)" by (rule map_of_SomeD)
  with base(2) have l0: "l = 0" by (force simp: inv_frame_def)
  from mem have inf: "BaseLoad \<in> set (in_flight s)" by (force simp: in_flight_def)
  then have ld: "loaded s = 0" by (rule d(1))
  have nh: "\<not> overlayHidden s"
  proof
    assume "overlayHidden s"
    then have "0 < loaded s" by (rule d(7))
    with ld show False by simp
  qed
  from base(2) l0 have nb: "BaseLoad \<notin> set (in_flight ?t)"
    by (auto simp: inv_frame_def in_flight_def)
  have "\<not> is_asset_load k" if "k \<in> set (in_flight ?t)" for k
  proof
    assume a: "is_asset_load k"
    from that have "k \<in> set (in_flight s)" using in_flight_settled [of l s] by blast
    from d(2) [OF inf this a] have "k = BaseLoad" .
    with that nb show False by simp
  qed
  then have z: "filter is_asset_load (in_flight ?t) = []"
    by (simp add: filter_empty_conv)
  have inf': "in_flight ?s' =
      in_flight ?t @ (if Suc (loaded s) = length (modelPaths s) then key_off_loads ?t else []) @
      map SecondaryLoad [1..<length (modelPaths s)]"
    by (simp add: in_flight_def onBase_fields)
  have nb': "BaseLoad \<notin> set (in_flight ?s')"
    using nb by (auto simp: inf')
  have cnt: "length (filter is_asset_load (in_flight ?s')) = length (modelPaths s) - 1"
    by (simp add: inf' z)
  have l': "loaded ?s' = Suc 0" by (simp add: onBase_fields ld)
  have p': "modelPaths ?s' = modelPaths s" by (simp add: onBase_fields)
  have o': "globalOffset ?s' \<noteq> None" by (simp add: onBase_fields)
  have h': "overlayHidden ?s' \<longleftrightarrow> Suc 0 = length (modelPaths s)"
    using nh by (simp add: onBase_fields ld)
  have w': "progressWidth ?s' = Some (progress_pct (Suc 0) (length (modelPaths s)))"
    by (simp add: onBase_fields ld)
  show ?case
  proof (rule inv_countI)
    show "loaded ?s' + length (filter is_asset_load (in_flight ?s')) \<le> max (length (modelPaths ?s')) 1"
      unfolding l' cnt p' by arith
    show "overlayHidden ?s' \<longleftrightarrow> loaded ?s' = length (modelPaths ?s') \<and> 0 < loaded ?s'"
      unfolding l' p' h' by simp
    show "progressWidth ?s' =
        (if loaded ?s' = 0 then None else Some (progress_pct (loaded ?s') (length (modelPaths ?s'))))"
      unfolding l' p' w' by simp
  qed (use nb' o' in simp_all)
next
  case (secondary l i g)
  let ?t = "settled l s"
  let ?s' = "loadModels_onSecondary i g ?t"
  note d = inv_countD [OF secondary(3)]
  from secondary(1) have mem: "(l, SecondaryLoad i) \<in> set (pending s)" by (rule map_of_SomeD)
  then have inf: "SecondaryLoad i \<in> set (in_flight s)" by (force simp: in_flight_def)
  have asset: "is_asset_load (SecondaryLoad i)" by (simp add: is_asset_load_def)
  have "globalOffset s \<noteq> None"
  proof
    assume "globalOffset s = None"
    from d(4) [OF this inf asset] show False by simp
  qed
  then obtain off where off: "globalOffset s = Some off" by auto
  then have o: "globalOffset ?t = Some off" by simp
  from secondary(2) off have nb: "BaseLoad \<notin> set (in_flight s)" by (auto simp: inv_frame_def)
  then have nbt: "BaseLoad \<notin> set (in_flight ?t)" using in_flight_settled [of l s] by blast
  have less: "length (filter is_asset_load (in_flight ?t)) < length (filter is_asset_load (in_flight s))"
    using asset_count_settled_less [OF secondary(1), of is_asset_load]
    by (simp add: in_flight_def is_asset_load_def)
  note bound = d(5)
  have nh: "\<not> overlayHidden s"
  proof
    assume h: "overlayHidden s"
    from d(6) [OF h] d(7) [OF h] bound less show False by arith
  qed
  have inf': "in_flight ?s' =
      in_flight ?t @ (if Suc (loaded s) = length (modelPaths s) then key_off_loads ?t else [])"
    by (simp add: in_flight_def onSecondary_fields [OF o])
  have nb': "BaseLoad \<notin> set (in_flight ?s')"
    using nbt by (auto simp: inf')
  have cnt: "length (filter is_asset_load (in_flight ?s')) = length (filter is_asset_load (in_flight ?t))"
    by (simp add: inf')
  have l': "loaded ?s' = Suc (loaded s)" by (simp add: onSecondary_fields [OF o])
  have p': "modelPaths ?s' = modelPaths s" by (simp add: onSecondary_fields [OF o])
  have o': "globalOffset ?s' \<noteq> None" by (simp add: onSecondary_fields [OF o] off)
  have h': "overlayHidden ?s' \<longleftrightarrow> Suc (loaded s) = length (modelPaths s)"
    using nh by (simp add: onSecondary_fields [OF o])
  have w': "progressWidth ?s' = Some (progress_pct (Suc (loaded s)) (length (modelPaths s)))"
    by (simp add: onSecondary_fields [OF o])
  show ?case
  proof (rule inv_countI)
    show "loaded ?s' + length (filter is_asset_load (in_flight ?s')) \<le> max (length (modelPaths ?s')) 1"
      unfolding l' cnt p' using less bound by arith
    show "overlayHidden ?s' \<longleftrightarrow> loaded ?s' = length (modelPaths ?s') \<and> 0 < loaded ?s'"
      unfolding l' p' h' by simp
    show "progressWidth ?s' =
        (if loaded ?s' = 0 then None else Some (progress_pct (loaded ?s') (length (modelPaths ?s'))))"
      unfolding l' p' w' by simp
  qed (use nb' o' in simp_all)
next
  case (key l c p g)
  let ?t = "settled l s"
  let ?s' = "loadKeyModel_onLoad c p g ?t"
  have f: "loaded ?s' = loaded s" "modelPaths ?s' = modelPaths s" "overlayHidden ?s' = overlayHidden s"
    "progressWidth ?s' = progressWidth s" "globalOffset ?s' = globalOffset s"
    "in_flight ?s' = in_flight ?t"
    using onKey_unchanged [of c p g ?t] by (simp_all add: in_flight_def)
  have le: "length (filter is_asset_load (in_flight ?t)) \<le> length (filter is_asset_load (in_flight s))"
    using asset_count_settled_le [of is_asset_load "\<lambda>p. fst p \<noteq> l" "pending s"]
    by (simp add: in_flight_def)
  from key(3) le show ?case
    unfolding inv_count_def f
    using in_flight_settled [of l s] by auto
next
  case (failed l k)
  let ?t = "settled l s"
  have le: "length (filter is_asset_load (in_flight ?t)) \<le> length (filter is_asset_load (in_flight s))"
    using asset_count_settled_le [of is_asset_load "\<lambda>p. fst p \<noteq> l" "pending s"]
    by (simp add: in_flight_def)
  have f: "in_flight (onError k ?t) = in_flight ?t"
    by (simp add: onError_eq in_flight_def)
  from failed(3) le show ?case
    unfolding inv_count_def f
    using in_flight_settled [of l s] by (auto simp: onError_eq)
next
  case (keydown c)
  then show ?case
    by (auto simp: keydown_eq inv_count_def in_flight_def is_asset_load_def split: option.splits)
next
  case (keyup c)
  then show ?case
    by (auto simp: keyup_eq inv_count_def in_flight_def is_asset_load_def split: option.splits)
qed

subsection \<open>Every state of a session satisfies the invariants\<close>

lemma init_fields:
  "modelPaths (init cfg) = cfg_modelPaths cfg"
  "modelRotation (init cfg) = cfg_modelRotation cfg"
  "enabledShadow (init cfg) = cfg_enabledShadow cfg"
  "globalScale (init cfg) = None"
  "globalOffset (init cfg) = None"
  "scene (init cfg) = []"
  "mixers (init cfg) = []"
  "loaded (init cfg) = 0"
  "progressWidth (init cfg) = None"
  "loadingText (init cfg) = None"
  "overlayHidden (init cfg) = False"
  "console (init cfg) = []"
  "pending (init cfg) = [(0, BaseLoad)]"
  "nextLoad (init cfg) = 1"
  "nextObj (init cfg) = 0"
  by (simp_all add: init_def setupKeyModels_def loadModels_def issue_def)

lemma setup_mesh_None:
  "\<forall>km \<in> snd ` set kms. mesh km = None \<Longrightarrow>
   \<forall>km \<in> snd ` set (fold (\<lambda>(code, p_off, p_on).
       AList.update code \<lparr>path_off = p_off, path_on = p_on, mesh = None, pressed = False\<rparr>) kc kms).
     mesh km = None"
proof (induction kc arbitrary: kms)
  case Nil
  then show ?case by simp
next
  case (Cons x kc)
  obtain code p_off p_on where x: "x = (code, p_off, p_on)" by (cases x) auto
  let ?k = "\<lparr>path_off = p_off, path_on = p_on, mesh = None, pressed = False\<rparr>"
  have "set (AList.update code ?k kms) \<subseteq> set kms \<union> {(code, ?k)}"
    by (induction kms) auto
  with Cons.prems have "\<forall>km \<in> snd ` set (AList.update code ?k kms). mesh km = None"
    by fastforce
  from Cons.IH [OF this] show ?case by (simp add: x)
qed

lemma slot_mesh_init: "slot_mesh (init cfg) c = None"
proof (cases "map_of (keyModels (init cfg)) c")
  case None
  then show ?thesis by (simp add: slot_mesh_def)
next
  case (Some km)
  then have "km \<in> snd ` set (keyModels (init cfg))" by (force dest: map_of_SomeD)
  moreover have "\<forall>km \<in> snd ` set (keyModels (init cfg)). mesh km = None"
    using setup_mesh_None [of "[]" "cfg_keyModels cfg"]
    by (simp add: init_def setupKeyModels_def loadModels_def issue_def)
  ultimately show ?thesis using Some by (auto simp: slot_mesh_def)
qed

lemma inv_init:
  "inv_ids (init cfg)" "inv_frame (init cfg)" "inv_slots (init cfg)" "inv_count (init cfg)"
  by (simp_all add: inv_ids_def inv_frame_def inv_slots_def inv_count_def init_fields in_flight_def
      resident_def slot_mesh_init is_asset_load_def)

lemma inv_all_step: "inv_all s \<Longrightarrow> inv_all (step s e)"
  by (simp add: inv_all_def inv_ids_step inv_frame_step inv_slots_step inv_count_step)

lemma inv_all_run: "inv_all s \<Longrightarrow> inv_all (run s es)"
  by (induction rule: run_induct) (rule inv_all_step)

lemma inv_all_init: "inv_all (init cfg)"
  by (simp add: inv_all_def inv_init)

lemma inv_reach: "inv_all (run (init cfg) es)"
  by (rule inv_all_run [OF inv_all_init])

lemma step_constants:
  "modelPaths (step s e) = modelPaths s \<and> modelRotation (step s e) = modelRotation s \<and>
   enabledShadow (step s e) = enabledShadow s"
proof (induction s e rule: step_cases)
  case (secondary l i g)
  show ?case
  proof (cases "globalOffset (settled l s)")
    case None
    then show ?thesis by (simp add: onSecondary_threw)
  next
    case (Some off)
    show ?thesis by (simp add: onSecondary_fields [OF Some])
  qed
next
  case (key l c p g)
  show ?case
  proof (cases "globalOffset (settled l s) = None \<or> map_of (keyModels (settled l s)) c = None")
    case True
    show ?thesis by (simp add: onKey_threw [OF True])
  next
    case False
    then obtain off km where o: "globalOffset (settled l s) = Some off"
      and k: "map_of (keyModels (settled l s)) c = Some km" by auto
    show ?thesis by (simp add: onKey_fields [OF o k])
  qed
qed (simp_all add: onBase_fields onError_eq keydown_eq keyup_eq split: option.splits)

lemma run_constants:
  "modelPaths (run s es) = modelPaths s \<and> modelRotation (run s es) = modelRotation s \<and>
   enabledShadow (run s es) = enabledShadow s"
  by (induction es arbitrary: s) (simp_all add: step_constants)

section \<open>The running example, step by step\<close>

lemma example_init:
  "init example_cfg =
     \<lparr>modelPaths = [''base.glb'', ''wheels.glb''],
      modelRotation = origin,
      enabledShadow = False,
      keyModels = [(''Digit1'', \<lparr>path_off = ''light_off.glb'', path_on = ''light_on.glb'',
                                 mesh = None, pressed = False\<rparr>)],
      globalScale = None, globalOffset = None, scene = [], mixers = [], loaded = 0,
      progressWidth = None, loadingText = None, overlayHidden = False, console = [],
      pending = [(0, BaseLoad)], nextLoad = 1, nextObj = 0\<rparr>"
  by (simp add: init_def setupKeyModels_def loadModels_def issue_def example_cfg_def)

lemmas fl_eval = fl_def rnd_def ulp_def rte_def ilog2.simps Let_def

lemma fl_values:
  "fl (1 / 2) = Fin (1 / 2)"
  "fl 1 = Fin 1"
  "fl (3 / 2) = Fin (3 / 2)"
  "fl (- (1 / 2)) = Fin (- (1 / 2))"
  "fl (- 1) = Fin (- 1)"
  "fl (- (3 / 2)) = Fin (- (3 / 2))"
  "fl 50 = Fin 50"
  "fl 100 = Fin 100"
  by (simp_all add: fl_eval)

lemma example_frame:
  "frame_scale example_base = Fin (1 / 2)"
  "frame_offset example_base = Vec3 (Fin (1 / 2)) (Fin 1) (Fin (3 / 2))"
  by (simp_all add: frame_scale_def frame_offset_def maxDim_def example_base_def multiplyScalar_def
      fl_values)

lemma example_pct:
  "progress_pct (Suc 0) (Suc (Suc 0)) = Fin 50"
  "progress_pct (Suc (Suc 0)) (Suc (Suc 0)) = Fin 100"
  by (simp_all add: progress_pct_def fl_values)

lemma example_asset_fields:
  "mesh_count example_base = Suc (Suc 0)" "animations example_base = [''spin'']"
  "mesh_count example_part = Suc 0" "animations example_part = []"
  by (simp_all add: example_base_def example_part_def)

lemma replicate_2: "replicate 2 x = [x, x]"
  by (simp add: numeral_2_eq_2)

lemmas model_eval = replicate_2 step.simps
  issue_def take_pending_def settled_def
  loadModels_onBase_def loadModels_onSecondary_def loadKeyModel_onLoad_def onError_def
  updateProgress_def initKeyModels_def loadKeyModel_def bind_animations_def scene_add_def
  scene_remove_def threw_def keydown_def keyup_def swapKeyModel_def paths_def place_def
  gltf_scene_def vsub_def origin_def Let_def example_frame example_pct example_asset_fields
  fl_values example_root_def light_off_def light_on_def

lemma example_step1:
  "step (init example_cfg) (Loaded 0 example_base) = example_base_loaded"
  by (simp add: example_init example_base_loaded_def model_eval)

lemma example_step2:
  "step example_base_loaded (Loaded 1 example_part) =
     example_all_loaded None False [] [(2, KeyLoad ''Digit1'' ''light_off.glb'')] 3 2 []"
  by (simp add: example_base_loaded_def example_all_loaded_def model_eval)

lemma example_step3:
  "step (example_all_loaded None False [] [(2, KeyLoad ''Digit1'' ''light_off.glb'')] 3 2 [])
        (Loaded 2 example_part) =
     example_all_loaded (Some (light_off 2)) False [light_off 2] [] 3 3 []"
  by (simp add: example_all_loaded_def model_eval)

lemma example_step4:
  "step (example_all_loaded (Some (light_off 2)) False [light_off 2] [] 3 3 [])
        (KeyDown ''Digit1'') =
     example_all_loaded (Some (light_off 2)) True [light_off 2]
       [(3, KeyLoad ''Digit1'' ''light_on.glb'')] 4 3 []"
  by (simp add: example_all_loaded_def model_eval)

lemma example_step5:
  "step (example_all_loaded (Some (light_off 2)) True [light_off 2]
           [(3, KeyLoad ''Digit1'' ''light_on.glb'')] 4 3 [])
        (KeyUp ''Digit1'') =
     example_all_loaded (Some (light_off 2)) False [light_off 2]
       [(3, KeyLoad ''Digit1'' ''light_on.glb''), (4, KeyLoad ''Digit1'' ''light_off.glb'')] 5 3 []"
  by (simp add: example_all_loaded_def model_eval)

lemma example_step6:
  "step (example_all_loaded (Some (light_off 2)) False [light_off 2]
           [(3, KeyLoad ''Digit1'' ''light_on.glb''), (4, KeyLoad ''Digit1'' ''light_off.glb'')] 5 3 [])
        (Loaded 4 example_part) =
     example_all_loaded (Some (light_off 3)) False [light_off 3]
       [(3, KeyLoad ''Digit1'' ''light_on.glb'')] 5 4 []"
  by (simp add: example_all_loaded_def model_eval)

lemma example_step7:
  "step (example_all_loaded (Some (light_off 3)) False [light_off 3]
           [(3, KeyLoad ''Digit1'' ''light_on.glb'')] 5 4 [])
        (Loaded 3 example_part) =
     example_all_loaded (Some (light_on 4)) False [light_on 4] [] 5 5 []"
  by (simp add: example_all_loaded_def model_eval)

lemma example_step4_failed:
  "step (example_all_loaded (Some (light_off 2)) True [light_off 2]
           [(3, KeyLoad ''Digit1'' ''light_on.glb'')] 4 3 [])
        (Failed 3) =
     example_all_loaded (Some (light_off 2)) True [light_off 2] [] 4 3
       [LoadError (KeyLoad ''Digit1'' ''light_on.glb'')]"
  by (simp add: example_all_loaded_def model_eval)

lemmas example_steps =
  example_step1 example_step2 example_step3 example_step4 example_step5 example_step6
  example_step7 example_step4_failed

lemma example_run:
  "run (init example_cfg) [Loaded 0 example_base, Loaded 1 example_part, Loaded 2 example_part] =
     example_all_loaded (Some (light_off 2)) False [light_off 2] [] 3 3 []"
  by (simp only: run_Cons run_Nil example_steps)

section \<open>Key slots are edge-triggered\<close>

text \<open>
  C7. For a configured slot \<open>{off: A, on: B}\<close>: a key-down while the slot is not pressed
  sets the flag and issues exactly one load, of \<open>B\<close>; a key-down while it is pressed changes
  nothing, so no further load is issued; a key-up while it is pressed clears the flag and
  issues exactly one load, of \<open>A\<close>.
\<close>

theorem key_slot_edge_triggered:
  "map_of (keyModels s) code = Some km \<longrightarrow>
     (\<not> pressed km \<longrightarrow>
        step s (KeyDown code) =
          s\<lparr>keyModels := AList.update code (km\<lparr>pressed := True\<rparr>) (keyModels s),
            pending := pending s @ [(nextLoad s, KeyLoad code (path_on km))],
            nextLoad := Suc (nextLoad s)\<rparr>) \<and>
     (pressed km \<longrightarrow> step s (KeyDown code) = s) \<and>
     (pressed km \<longrightarrow>
        step s (KeyUp code) =
          s\<lparr>keyModels := AList.update code (km\<lparr>pressed := False\<rparr>) (keyModels s),
            pending := pending s @ [(nextLoad s, KeyLoad code (path_off km))],
            nextLoad := Suc (nextLoad s)\<rparr>)"
  by (simp add: step.simps keydown_def keyup_def swapKeyModel_def loadKeyModel_def issue_def
      map_of_update_same paths_def)

theorem key_slot_edge_triggered_witness:
  "map_of (keyModels (init example_cfg)) ''Digit1'' =
     Some \<lparr>path_off = ''light_off.glb'', path_on = ''light_on.glb'', mesh = None, pressed = False\<rparr> \<and>
   pending (step (init example_cfg) (KeyDown ''Digit1'')) =
     [(0, BaseLoad), (1, KeyLoad ''Digit1'' ''light_on.glb'')] \<and>
   map_of (keyModels (step (init example_cfg) (KeyDown ''Digit1''))) ''Digit1'' =
     Some \<lparr>path_off = ''light_off.glb'', path_on = ''light_on.glb'', mesh = None, pressed = True\<rparr> \<and>
   step (step (init example_cfg) (KeyDown ''Digit1'')) (KeyDown ''Digit1'') =
     step (init example_cfg) (KeyDown ''Digit1'') \<and>
   pending (step (step (init example_cfg) (KeyDown ''Digit1'')) (KeyUp ''Digit1'')) =
     [(0, BaseLoad), (1, KeyLoad ''Digit1'' ''light_on.glb''),
      (2, KeyLoad ''Digit1'' ''light_off.glb'')]"
proof -
  let ?off = "\<lparr>path_off = ''light_off.glb'', path_on = ''light_on.glb'', mesh = None, pressed = False\<rparr>"
  let ?on = "\<lparr>path_off = ''light_off.glb'', path_on = ''light_on.glb'', mesh = None, pressed = True\<rparr>"
  have k0: "map_of (keyModels (init example_cfg)) ''Digit1'' = Some ?off"
    by (simp add: example_init)
  from k0 key_slot_edge_triggered [of "init example_cfg" "''Digit1''" ?off]
  have s1: "step (init example_cfg) (KeyDown ''Digit1'') =
      (init example_cfg)\<lparr>keyModels := [(''Digit1'', ?on)],
         pending := [(0, BaseLoad), (1, KeyLoad ''Digit1'' ''light_on.glb'')],
         nextLoad := 2\<rparr>"
    by (simp add: example_init)
  have k1: "map_of (keyModels (step (init example_cfg) (KeyDown ''Digit1''))) ''Digit1'' = Some ?on"
    using s1 by simp
  from k1 key_slot_edge_triggered [of "step (init example_cfg) (KeyDown ''Digit1'')" "''Digit1''" ?on]
  have s2: "step (step (init example_cfg) (KeyDown ''Digit1'')) (KeyDown ''Digit1'') =
      step (init example_cfg) (KeyDown ''Digit1'')"
    and s3: "pending (step (step (init example_cfg) (KeyDown ''Digit1'')) (KeyUp ''Digit1'')) =
      [(0, BaseLoad), (1, KeyLoad ''Digit1'' ''light_on.glb''), (2, KeyLoad ''Digit1'' ''light_off.glb'')]"
    using s1 by simp_all
  from k0 s1 k1 s2 s3 show ?thesis by simp
qed

section \<open>A failed key-swap load\<close>

lemma fresh_load_lookup:
  "inv_ids s \<Longrightarrow> map_of (pending s @ [(nextLoad s, k)]) (nextLoad s) = Some k"
proof -
  assume "inv_ids s"
  then have "\<forall>p \<in> set (pending s). fst p \<noteq> nextLoad s" by (auto simp: inv_ids_def)
  then have "map_of (pending s) (nextLoad s) = None"
    by (auto simp: map_of_eq_None_iff)
  then show ?thesis by (simp add: map_add_def)
qed

text \<open>
  C10. When a key-swap load fails, the error callback only logs: the scene, the mixers and
  the key slots (mesh reference and pressed flag) are what they were. The pressed flag was
  set by the key event that issued the load, so after a key-down whose load fails the
  slot is pressed while its mesh is still the one it had before.
\<close>

theorem key_load_failure_only_logs:
  "(map_of (pending s) l = Some (KeyLoad code path) \<longrightarrow>
      scene (step s (Failed l)) = scene s \<and>
      mixers (step s (Failed l)) = mixers s \<and>
      keyModels (step s (Failed l)) = keyModels s \<and>
      console (step s (Failed l)) = console s @ [LoadError (KeyLoad code path)]) \<and>
   (map_of (keyModels (run (init cfg) es)) code = Some km \<and> \<not> pressed km \<longrightarrow>
      slot_mesh (run (init cfg) (es @ [KeyDown code, Failed (nextLoad (run (init cfg) es))])) code =
        mesh km \<and>
      map_of (keyModels (run (init cfg) (es @ [KeyDown code, Failed (nextLoad (run (init cfg) es))])))
        code = Some (km\<lparr>pressed := True\<rparr>) \<and>
      scene (run (init cfg) (es @ [KeyDown code, Failed (nextLoad (run (init cfg) es))])) =
        scene (run (init cfg) es))"
proof (intro conjI impI)
  assume "map_of (pending s) l = Some (KeyLoad code path)"
  then have st: "step s (Failed l) = onError (KeyLoad code path) (settled l s)"
    by (simp add: take_pending_def step.simps)
  show "scene (step s (Failed l)) = scene s" "mixers (step s (Failed l)) = mixers s"
    "keyModels (step s (Failed l)) = keyModels s"
    "console (step s (Failed l)) = console s @ [LoadError (KeyLoad code path)]"
    by (simp_all add: st onError_eq)
next
  let ?s = "run (init cfg) es"
  let ?l = "nextLoad ?s"
  assume a: "map_of (keyModels ?s) code = Some km \<and> \<not> pressed km"
  have "inv_all ?s" by (rule inv_reach)
  then have ids: "inv_ids ?s" by (simp add: inv_all_def)
  let ?d = "?s\<lparr>keyModels := AList.update code (km\<lparr>pressed := True\<rparr>) (keyModels ?s),
               pending := pending ?s @ [(?l, KeyLoad code (path_on km))],
               nextLoad := Suc ?l\<rparr>"
  from a have d: "step ?s (KeyDown code) = ?d" by (simp add: keydown_eq step.simps)
  have "map_of (pending ?d) ?l = Some (KeyLoad code (path_on km))"
    using fresh_load_lookup [OF ids] by simp
  then have f: "step ?d (Failed ?l) = onError (KeyLoad code (path_on km)) (settled ?l ?d)"
    by (simp add: take_pending_def step.simps)
  have r: "run (init cfg) (es @ [KeyDown code, Failed ?l]) =
           onError (KeyLoad code (path_on km)) (settled ?l ?d)"
    by (simp only: run_append run_Cons run_Nil d f)
  show "slot_mesh (run (init cfg) (es @ [KeyDown code, Failed ?l])) code = mesh km"
    by (simp add: r onError_eq slot_mesh_def map_of_update_same)
  show "map_of (keyModels (run (init cfg) (es @ [KeyDown code, Failed ?l]))) code =
        Some (km\<lparr>pressed := True\<rparr>)"
    by (simp add: r onError_eq map_of_update_same)
  show "scene (run (init cfg) (es @ [KeyDown code, Failed ?l])) = scene ?s"
    by (simp add: r onError_eq)
qed

theorem key_load_failure_only_logs_witness:
  "map_of (pending (example_all_loaded (Some (light_off 2)) True [light_off 2]
       [(3, KeyLoad ''Digit1'' ''light_on.glb'')] 4 3 [])) 3 =
     Some (KeyLoad ''Digit1'' ''light_on.glb'') \<and>
   scene (step (example_all_loaded (Some (light_off 2)) True [light_off 2]
       [(3, KeyLoad ''Digit1'' ''light_on.glb'')] 4 3 []) (Failed 3)) =
     [example_root 0 BaseLoad 2, example_root 1 (SecondaryLoad 1) 1, light_off 2] \<and>
   map_of (keyModels (run (init example_cfg)
       [Loaded 0 example_base, Loaded 1 example_part, Loaded 2 example_part])) ''Digit1'' =
     Some \<lparr>path_off = ''light_off.glb'', path_on = ''light_on.glb'',
            mesh = Some (light_off 2), pressed = False\<rparr> \<and>
   slot_mesh (run (init example_cfg)
       ([Loaded 0 example_base, Loaded 1 example_part, Loaded 2 example_part] @
        [KeyDown ''Digit1'', Failed 3])) ''Digit1'' = Some (light_off 2) \<and>
   map_of (keyModels (run (init example_cfg)
       ([Loaded 0 example_base, Loaded 1 example_part, Loaded 2 example_part] @
        [KeyDown ''Digit1'', Failed 3]))) ''Digit1'' =
     Some \<lparr>path_off = ''light_off.glb'', path_on = ''light_on.glb'',
            mesh = Some (light_off 2), pressed = True\<rparr>"
proof -
  let ?es = "[Loaded 0 example_base, Loaded 1 example_part, Loaded 2 example_part]"
  let ?km = "\<lparr>path_off = ''light_off.glb'', path_on = ''light_on.glb'',
               mesh = Some (light_off 2), pressed = False\<rparr>"
  let ?s4 = "example_all_loaded (Some (light_off 2)) True [light_off 2]
       [(3, KeyLoad ''Digit1'' ''light_on.glb'')] 4 3 []"
  have p: "map_of (pending ?s4) 3 = Some (KeyLoad ''Digit1'' ''light_on.glb'')"
    by (simp add: example_all_loaded_def)
  have k: "map_of (keyModels (run (init example_cfg) ?es)) ''Digit1'' = Some ?km"
    unfolding example_run by (simp add: example_all_loaded_def)
  have n: "nextLoad (run (init example_cfg) ?es) = 3"
    unfolding example_run by (simp add: example_all_loaded_def)
  note t = key_load_failure_only_logs [of ?s4 3 "''Digit1''" "''light_on.glb''" example_cfg ?es ?km]
  from t p have 1: "scene (step ?s4 (Failed 3)) =
      [example_root 0 BaseLoad 2, example_root 1 (SecondaryLoad 1) 1, light_off 2]"
    by (simp add: example_all_loaded_def)
  from t k n have 2: "slot_mesh (run (init example_cfg) (?es @ [KeyDown ''Digit1'', Failed 3]))
      ''Digit1'' = Some (light_off 2)"
    and 3: "map_of (keyModels (run (init example_cfg) (?es @ [KeyDown ''Digit1'', Failed 3])))
      ''Digit1'' = Some (?km\<lparr>pressed := True\<rparr>)"
    by simp_all
  from p 1 k 2 3 show ?thesis by simp
qed

section \<open>Failure of the base asset\<close>

lemma in_flight_step_base:
  "inv_frame s \<Longrightarrow> BaseLoad \<in> set (in_flight (step s e)) \<Longrightarrow> BaseLoad \<in> set (in_flight s)"
proof (induction s e rule: step_cases)
  case (unknown l)
  then show ?case by simp
next
  case (base l g)
  from base(1) have "(l, BaseLoad) \<in> set (pending s)" by (rule map_of_SomeD)
  then show ?case by (force simp: in_flight_def)
next
  case (secondary l i g)
  show ?case
  proof (cases "globalOffset (settled l s)")
    case None
    with secondary(3) show ?thesis by (auto simp: onSecondary_threw in_flight_def)
  next
    case (Some off)
    with secondary(3) show ?thesis
      by (auto simp: onSecondary_fields [OF Some] in_flight_def image_Un split: if_splits)
  qed
next
  case (key l c p g)
  with onKey_unchanged [of c p g "settled l s"] show ?case by (auto simp: in_flight_def)
next
  case (failed l k)
  then show ?case by (auto simp: onError_eq in_flight_def)
next
  case (keydown c)
  then show ?case by (auto simp: keydown_eq in_flight_def split: option.splits if_splits)
next
  case (keyup c)
  then show ?case by (auto simp: keyup_eq in_flight_def split: option.splits if_splits)
qed

lemma offset_step_None:
  "inv_frame s \<Longrightarrow> globalOffset s = None \<Longrightarrow> BaseLoad \<notin> set (in_flight s) \<Longrightarrow>
   globalOffset (step s e) = None"
proof (induction s e rule: step_cases)
  case (unknown l)
  then show ?case by simp
next
  case (base l g)
  from base(1) have "(l, BaseLoad) \<in> set (pending s)" by (rule map_of_SomeD)
  then have "BaseLoad \<in> set (in_flight s)" by (force simp: in_flight_def)
  with base(4) show ?case by simp
next
  case (secondary l i g)
  then show ?case by (simp add: onSecondary_threw)
next
  case (key l c p g)
  with onKey_unchanged [of c p g "settled l s"] show ?case by simp
next
  case (failed l k)
  then show ?case by (simp add: onError_eq)
next
  case (keydown c)
  then show ?case by (simp add: keydown_eq split: option.splits)
next
  case (keyup c)
  then show ?case by (simp add: keyup_eq split: option.splits)
qed

text \<open>Without the base asset: no frame, and no load of the base asset in flight.\<close>

lemma no_base_run:
  "inv_all s \<Longrightarrow> globalOffset s = None \<Longrightarrow> BaseLoad \<notin> set (in_flight s) \<Longrightarrow>
   globalOffset (run s es) = None \<and> BaseLoad \<notin> set (in_flight (run s es))"
proof (induction es arbitrary: s)
  case Nil
  then show ?case by simp
next
  case (Cons e es)
  from Cons.prems(1) have f: "inv_frame s" by (simp add: inv_all_def)
  have 1: "inv_all (step s e)" using Cons.prems(1) by (rule inv_all_step)
  have 2: "globalOffset (step s e) = None" using f Cons.prems(2,3) by (rule offset_step_None)
  have 3: "BaseLoad \<notin> set (in_flight (step s e))"
    using in_flight_step_base [OF f] Cons.prems(3) by blast
  from Cons.IH [OF 1 2 3] show ?case by simp
qed

text \<open>Until one of its callbacks runs, the load of the base asset is in flight.\<close>

lemma map_of_filter_other: "k \<noteq> l \<Longrightarrow> map_of (filter (\<lambda>p. fst p \<noteq> l) ps) k = map_of ps k"
  by (induction ps) auto

lemma base_pending_step:
  assumes "inv_frame s" "map_of (pending s) 0 = Some BaseLoad" "\<not> resolves 0 e"
  shows "map_of (pending (step s e)) 0 = Some BaseLoad"
proof (cases e)
  case (Loaded l g)
  with assms(3) have l: "l \<noteq> 0" by simp
  then have t: "map_of (pending (settled l s)) 0 = Some BaseLoad"
    using assms(2) by (simp add: map_of_filter_other)
  show ?thesis
  proof (cases "map_of (pending s) l")
    case None
    with assms(2) show ?thesis by (simp add: Loaded step.simps take_pending_def)
  next
    case (Some k)
    then have st: "step s e = onLoad k g (settled l s)"
      by (simp add: Loaded step.simps take_pending_def)
    show ?thesis
    proof (cases k)
      case BaseLoad
      with Some have "(l, BaseLoad) \<in> set (pending s)" by (simp add: map_of_SomeD)
      with assms(1) l show ?thesis by (force simp: inv_frame_def)
    next
      case (SecondaryLoad i)
      show ?thesis
      proof (cases "globalOffset (settled l s)")
        case None
        with t show ?thesis by (simp add: st SecondaryLoad onSecondary_threw)
      next
        case (Some off)
        with t show ?thesis
          by (simp add: st SecondaryLoad onSecondary_fields [OF Some] map_add_def)
      qed
    next
      case (KeyLoad c p)
      with t onKey_unchanged [of c p g "settled l s"] show ?thesis by (simp add: st)
    qed
  qed
next
  case (Failed l)
  with assms(3) have l: "l \<noteq> 0" by simp
  then have "map_of (pending (settled l s)) 0 = Some BaseLoad"
    using assms(2) by (simp add: map_of_filter_other)
  with assms(2) show ?thesis
    by (cases "map_of (pending s) l") (simp_all add: Failed step.simps take_pending_def onError_eq)
next
  case (KeyDown c)
  with assms(2) show ?thesis
    by (simp add: step.simps keydown_eq map_add_def split: option.splits)
next
  case (KeyUp c)
  with assms(2) show ?thesis
    by (simp add: step.simps keyup_eq map_add_def split: option.splits)
qed

lemma base_pending_run:
  "list_all (\<lambda>e. \<not> resolves 0 e) es \<Longrightarrow> map_of (pending (run (init cfg) es)) 0 = Some BaseLoad"
proof (induction es rule: rev_induct)
  case Nil
  show ?case by (simp add: init_fields)
next
  case (snoc e es)
  have "inv_all (run (init cfg) es)" by (rule inv_reach)
  then have "inv_frame (run (init cfg) es)" by (simp add: inv_all_def)
  with snoc show ?case by (simp add: run_snoc base_pending_step)
qed

lemma base_failed_state:
  assumes "list_all (\<lambda>e. \<not> resolves 0 e) es"
  shows "step (run (init cfg) es) (Failed 0) = onError BaseLoad (settled 0 (run (init cfg) es))"
    and "globalOffset (run (init cfg) es) = None"
    and "BaseLoad \<notin> set (in_flight (settled 0 (run (init cfg) es)))"
proof -
  let ?s = "run (init cfg) es"
  have p: "map_of (pending ?s) 0 = Some BaseLoad" using assms by (rule base_pending_run)
  then show "step ?s (Failed 0) = onError BaseLoad (settled 0 ?s)"
    by (simp add: step.simps take_pending_def)
  have "inv_all ?s" by (rule inv_reach)
  then have f: "inv_frame ?s" by (simp add: inv_all_def)
  from p have "(0, BaseLoad) \<in> set (pending ?s)" by (rule map_of_SomeD)
  then have "BaseLoad \<in> set (in_flight ?s)" by (force simp: in_flight_def)
  with f show "globalOffset ?s = None" by (simp add: inv_frame_def)
  from f show "BaseLoad \<notin> set (in_flight (settled 0 ?s))"
    by (auto simp: inv_frame_def in_flight_def)
qed

text \<open>
  C6. If the load of \<open>paths[0]\<close> fails, then however the session goes on, scale and
  offset stay unassigned, the counter stays 0, and no load of a configured asset path is
  ever in flight again (so none of \<open>paths[1..]\<close> is issued and the base asset is not
  retried); the failing callback itself only writes to the console.
\<close>

theorem base_failure_is_final:
  "list_all (\<lambda>e. \<not> resolves 0 e) es1 \<longrightarrow>
     globalScale (run (init cfg) (es1 @ Failed 0 # es2)) = None \<and>
     globalOffset (run (init cfg) (es1 @ Failed 0 # es2)) = None \<and>
     loaded (run (init cfg) (es1 @ Failed 0 # es2)) = 0 \<and>
     list_all (\<lambda>k. \<not> is_asset_load k) (in_flight (run (init cfg) (es1 @ Failed 0 # es2))) \<and>
     scene (run (init cfg) (es1 @ Failed 0 # es2)) = [] \<and>
     step (run (init cfg) es1) (Failed 0) =
       (settled 0 (run (init cfg) es1))
         \<lparr>console := console (run (init cfg) es1) @ [LoadError BaseLoad]\<rparr>"
proof
  assume a: "list_all (\<lambda>e. \<not> resolves 0 e) es1"
  let ?s1 = "run (init cfg) es1"
  let ?f = "step ?s1 (Failed 0)"
  let ?s = "run (init cfg) (es1 @ Failed 0 # es2)"
  note b = base_failed_state [OF a, of cfg]
  have r: "?s = run ?f es2" by (simp add: run_append)
  have i1: "inv_all ?s1" by (rule inv_reach)
  then have i: "inv_all ?f" by (rule inv_all_step)
  have o: "globalOffset ?f = None" by (simp add: b(1,2) onError_eq)
  have n: "BaseLoad \<notin> set (in_flight ?f)"
    using b(3) by (simp add: b(1) onError_eq in_flight_def)
  from no_base_run [OF i o n, of es2]
  have off: "globalOffset ?s = None" and nb: "BaseLoad \<notin> set (in_flight ?s)"
    by (simp_all add: r)
  have "inv_all ?s" by (rule inv_reach)
  then have fr: "inv_frame ?s" and cn: "inv_count ?s" by (simp_all add: inv_all_def)
  from fr off have sc: "globalScale ?s = None" by (simp add: inv_frame_def)
  from fr off have scn: "scene ?s = []" by (rule inv_frame_scene_empty)
  from inv_countD(3) [OF cn off] have ld: "loaded ?s = 0" .
  have "\<not> is_asset_load k" if "k \<in> set (in_flight ?s)" for k
  proof
    assume "is_asset_load k"
    from inv_countD(4) [OF cn off that this] nb that show False by simp
  qed
  then have fl: "list_all (\<lambda>k. \<not> is_asset_load k) (in_flight ?s)"
    by (simp add: list_all_iff)
  have st: "?f = (settled 0 ?s1)\<lparr>console := console ?s1 @ [LoadError BaseLoad]\<rparr>"
    by (simp add: b(1) onError_eq)
  from sc off ld fl scn st show
    "globalScale ?s = None \<and> globalOffset ?s = None \<and> loaded ?s = 0 \<and>
     list_all (\<lambda>k. \<not> is_asset_load k) (in_flight ?s) \<and> scene ?s = [] \<and>
     ?f = (settled 0 ?s1)\<lparr>console := console ?s1 @ [LoadError BaseLoad]\<rparr>"
    by simp
qed

theorem base_failure_is_final_witness:
  "list_all (\<lambda>e. \<not> resolves 0 e) [KeyDown ''Digit1''] \<and>
   globalScale (run (init example_cfg)
     ([KeyDown ''Digit1''] @ Failed 0 # [Loaded 1 example_part])) = None \<and>
   globalOffset (run (init example_cfg)
     ([KeyDown ''Digit1''] @ Failed 0 # [Loaded 1 example_part])) = None \<and>
   loaded (run (init example_cfg)
     ([KeyDown ''Digit1''] @ Failed 0 # [Loaded 1 example_part])) = 0 \<and>
   scene (run (init example_cfg)
     ([KeyDown ''Digit1''] @ Failed 0 # [Loaded 1 example_part])) = []"
proof -
  have h: "list_all (\<lambda>e. \<not> resolves 0 e) [KeyDown ''Digit1'']" by simp
  from base_failure_is_final [of "[KeyDown ''Digit1'']" example_cfg "[Loaded 1 example_part]"] h
  show ?thesis by blast
qed

section \<open>The normalization frame is assigned at most once\<close>

lemma assigns_frame_step:
  "assigns_frame s (Loaded l g) \<Longrightarrow> step s (Loaded l g) = loadModels_onBase g (settled l s)"
  by (simp add: step.simps take_pending_def)

lemma base_consumed:
  assumes "inv_frame s" "assigns_frame s e"
  shows "BaseLoad \<notin> set (in_flight (step s e))"
proof -
  from assms(2) obtain l g where e: "e = Loaded l g" by (cases e) auto
  with assms(2) have st: "step s e = loadModels_onBase g (settled l s)"
    by (simp add: assigns_frame_step)
  have "inv_frame (step s e)" using assms(1) by (rule inv_frame_step)
  moreover have "globalOffset (step s e) \<noteq> None" by (simp add: st onBase_fields)
  ultimately show ?thesis by (auto simp: inv_frame_def)
qed

lemma frame_kept:
  "\<not> assigns_frame s e \<Longrightarrow>
   globalScale (step s e) = globalScale s \<and> globalOffset (step s e) = globalOffset s"
proof (cases e)
  case (Loaded l g)
  assume n: "\<not> assigns_frame s e"
  show ?thesis
  proof (cases "map_of (pending s) l")
    case None
    then show ?thesis by (simp add: Loaded step.simps take_pending_def)
  next
    case (Some k)
    then have st: "step s e = onLoad k g (settled l s)"
      by (simp add: Loaded step.simps take_pending_def)
    show ?thesis
    proof (cases k)
      case BaseLoad
      with Some n Loaded show ?thesis by simp
    next
      case (SecondaryLoad i)
      show ?thesis
      proof (cases "globalOffset (settled l s)")
        case None
        then show ?thesis by (simp add: st SecondaryLoad onSecondary_threw)
      next
        case (Some off)
        show ?thesis by (simp add: st SecondaryLoad onSecondary_fields [OF Some])
      qed
    next
      case (KeyLoad c p)
      with onKey_unchanged [of c p g "settled l s"] show ?thesis by (simp add: st)
    qed
  qed
next
  case (Failed l)
  show ?thesis
    by (cases "map_of (pending s) l") (simp_all add: Failed step.simps take_pending_def onError_eq)
next
  case (KeyDown c)
  show ?thesis by (simp add: KeyDown step.simps keydown_eq split: option.splits)
next
  case (KeyUp c)
  show ?thesis by (simp add: KeyUp step.simps keyup_eq split: option.splits)
qed

lemma assigns_needs_base: "assigns_frame s e \<Longrightarrow> BaseLoad \<in> set (in_flight s)"
proof -
  assume a: "assigns_frame s e"
  then obtain l g where "e = Loaded l g" by (cases e) auto
  with a have "(l, BaseLoad) \<in> set (pending s)" by (simp add: map_of_SomeD)
  then show ?thesis by (force simp: in_flight_def)
qed

lemma frame_kept_run:
  "inv_frame s \<Longrightarrow> BaseLoad \<notin> set (in_flight s) \<Longrightarrow>
   globalScale (run s es) = globalScale s \<and> globalOffset (run s es) = globalOffset s"
proof (induction es arbitrary: s)
  case Nil
  show ?case by simp
next
  case (Cons e es)
  have i: "inv_frame (step s e)" using Cons.prems(1) by (rule inv_frame_step)
  have n: "BaseLoad \<notin> set (in_flight (step s e))"
    using in_flight_step_base [OF Cons.prems(1)] Cons.prems(2) by blast
  from Cons.prems(2) have "\<not> assigns_frame s e" by (auto dest: assigns_needs_base)
  with Cons.IH [OF i n] show ?case by (simp add: frame_kept)
qed

lemma base_loaded_run:
  assumes "list_all (\<lambda>e. \<not> resolves 0 e) es1"
  shows "globalScale (run (init cfg) (es1 @ Loaded 0 g # es2)) = Some (frame_scale g)"
    and "globalOffset (run (init cfg) (es1 @ Loaded 0 g # es2)) = Some (frame_offset g)"
proof -
  let ?s1 = "run (init cfg) es1"
  let ?b = "step ?s1 (Loaded 0 g)"
  have p: "map_of (pending ?s1) 0 = Some BaseLoad" using assms by (rule base_pending_run)
  then have a: "assigns_frame ?s1 (Loaded 0 g)" by simp
  have "inv_all ?s1" by (rule inv_reach)
  then have f1: "inv_frame ?s1" by (simp add: inv_all_def)
  then have f: "inv_frame ?b" by (rule inv_frame_step)
  have n: "BaseLoad \<notin> set (in_flight ?b)" using f1 a by (rule base_consumed)
  have r: "run (init cfg) (es1 @ Loaded 0 g # es2) = run ?b es2" by (simp add: run_append)
  from frame_kept_run [OF f n, of es2]
  show "globalScale (run (init cfg) (es1 @ Loaded 0 g # es2)) = Some (frame_scale g)"
    and "globalOffset (run (init cfg) (es1 @ Loaded 0 g # es2)) = Some (frame_offset g)"
    by (simp_all add: r assigns_frame_step [OF a] onBase_fields)
qed

lemma frame_assignments_eq:
  "inv_frame s \<Longrightarrow>
   frame_assignments s es =
     (if globalOffset s = None \<and> globalOffset (run s es) \<noteq> None then 1 else 0)"
proof (induction es arbitrary: s)
  case Nil
  show ?case by auto
next
  case (Cons e es)
  have i: "inv_frame (step s e)" using Cons.prems by (rule inv_frame_step)
  note ih = Cons.IH [OF i]
  show ?case
  proof (cases "assigns_frame s e")
    case True
    then have "BaseLoad \<in> set (in_flight s)" by (rule assigns_needs_base)
    with Cons.prems have before: "globalOffset s = None" by (simp add: inv_frame_def)
    from True obtain l g where e: "e = Loaded l g" by (cases e) auto
    with True have "step s e = loadModels_onBase g (settled l s)"
      by (simp add: assigns_frame_step)
    then have after: "globalOffset (step s e) = Some (frame_offset g)"
      by (simp add: onBase_fields)
    have n: "BaseLoad \<notin> set (in_flight (step s e))"
      using Cons.prems True by (rule base_consumed)
    from frame_kept_run [OF i n, of es] after
    have "globalOffset (run (step s e) es) \<noteq> None" by simp
    with True before after ih show ?thesis by simp
  next
    case False
    then have "globalOffset (step s e) = globalOffset s" by (simp add: frame_kept)
    with False ih show ?thesis by simp
  qed
qed

lemma base_failed_run:
  assumes "list_all (\<lambda>e. \<not> resolves 0 e) es1"
  shows "globalOffset (run (init cfg) (es1 @ Failed 0 # es2)) = None"
proof -
  let ?s = "run (init cfg) es1"
  let ?f = "step ?s (Failed 0)"
  note b = base_failed_state [OF assms, of cfg]
  have r: "?f = run (init cfg) (es1 @ [Failed 0])" by (simp add: run_append)
  have i: "inv_all ?f" unfolding r by (rule inv_reach)
  have o: "globalOffset ?f = None" using b(2) by (simp add: b(1) onError_eq)
  have n: "BaseLoad \<notin> set (in_flight ?f)" using b(3) by (simp add: b(1) onError_eq in_flight_def)
  from no_base_run [OF i o n, of es2] show ?thesis by (simp add: run_append)
qed

text \<open>
  C2. As claimed, every session would assign the frame exactly once. The assignments stand
  in the success callback of the base asset only, so a session whose base load fails
  never executes them: after \<open>Failed 0\<close> the count is 0 and scale and offset are unset.
\<close>

theorem frame_never_assigned_counterexample:
  "frame_assignments (init example_cfg) [Failed 0] = 0 \<and>
   globalScale (run (init example_cfg) [Failed 0]) = None \<and>
   globalOffset (run (init example_cfg) [Failed 0]) = None"
  by (simp add: example_init model_eval onError_def)

text \<open>
  C2, amended. In a session the two assignments to the global scale and offset execute
  at most once, and exactly once precisely in the sessions in which scale and offset are
  set: not while the load of the base asset is in flight, not if it fails, and once, with
  the frame of that asset, if it succeeds. They execute only in the success callback of
  the base asset; every other step leaves scale and offset as they are, so once set they
  keep their value whatever is loaded later; and every root in the scene, whether of a base
  part or of a key-swap variant, carries exactly the stored scale and offset (and the
  configured rotation and shadow flags), whatever its own bounding box.
\<close>

theorem frame_assigned_at_most_once:
  "frame_assignments (init cfg) es = (if globalOffset (run (init cfg) es) = None then 0 else 1) \<and>
   (list_all (\<lambda>e. \<not> resolves 0 e) es1 \<longrightarrow>
      frame_assignments (init cfg) es1 = 0 \<and>
      frame_assignments (init cfg) (es1 @ Failed 0 # es2) = 0 \<and>
      frame_assignments (init cfg) (es1 @ Loaded 0 g # es2) = 1 \<and>
      globalScale (run (init cfg) (es1 @ Loaded 0 g # es2)) = Some (frame_scale g) \<and>
      globalOffset (run (init cfg) (es1 @ Loaded 0 g # es2)) = Some (frame_offset g)) \<and>
   (\<forall>s e. \<not> assigns_frame s e \<longrightarrow>
      globalScale (step s e) = globalScale s \<and> globalOffset (step s e) = globalOffset s) \<and>
   (\<forall>s l g. assigns_frame s (Loaded l g) \<longrightarrow>
      globalScale (step s (Loaded l g)) = Some (frame_scale g) \<and>
      globalOffset (step s (Loaded l g)) = Some (frame_offset g)) \<and>
   (globalOffset (run (init cfg) es) \<noteq> None \<longrightarrow>
      globalScale (run (init cfg) (es @ es')) = globalScale (run (init cfg) es) \<and>
      globalOffset (run (init cfg) (es @ es')) = globalOffset (run (init cfg) es)) \<and>
   (\<forall>m \<in> set (scene (run (init cfg) es)). placed (run (init cfg) es) m)"
proof -
  have "inv_all (init cfg)" by (rule inv_all_init)
  then have fi: "inv_frame (init cfg)" by (simp add: inv_all_def)
  have count: "frame_assignments (init cfg) xs =
      (if globalOffset (run (init cfg) xs) = None then 0 else 1)" for xs
    using frame_assignments_eq [OF fi, of xs] by (simp add: init_fields)
  have 1: "frame_assignments (init cfg) es =
      (if globalOffset (run (init cfg) es) = None then 0 else 1)"
    by (rule count)
  have 2: "frame_assignments (init cfg) es1 = 0 \<and>
      frame_assignments (init cfg) (es1 @ Failed 0 # es2) = 0 \<and>
      frame_assignments (init cfg) (es1 @ Loaded 0 g # es2) = 1 \<and>
      globalScale (run (init cfg) (es1 @ Loaded 0 g # es2)) = Some (frame_scale g) \<and>
      globalOffset (run (init cfg) (es1 @ Loaded 0 g # es2)) = Some (frame_offset g)"
    if h: "list_all (\<lambda>e. \<not> resolves 0 e) es1"
  proof -
    have "globalOffset (run (init cfg) es1) = None"
      using h by (rule base_failed_state(2))
    then have a: "frame_assignments (init cfg) es1 = 0" by (simp add: count)
    have "globalOffset (run (init cfg) (es1 @ Failed 0 # es2)) = None"
      using h by (rule base_failed_run)
    then have b: "frame_assignments (init cfg) (es1 @ Failed 0 # es2) = 0" by (simp add: count)
    note l = base_loaded_run [OF h, of cfg g es2]
    from l(2) have c: "frame_assignments (init cfg) (es1 @ Loaded 0 g # es2) = 1"
      by (simp add: count)
    from a b c l show ?thesis by simp
  qed
  have 3: "globalScale (step s e) = globalScale s \<and> globalOffset (step s e) = globalOffset s"
    if "\<not> assigns_frame s e" for s e
    using that by (simp add: frame_kept)
  have 4: "globalScale (step s (Loaded l g)) = Some (frame_scale g) \<and>
      globalOffset (step s (Loaded l g)) = Some (frame_offset g)"
    if "assigns_frame s (Loaded l g)" for s l g
    using that by (simp add: assigns_frame_step onBase_fields)
  have 5: "globalScale (run (init cfg) (es @ es')) = globalScale (run (init cfg) es) \<and>
      globalOffset (run (init cfg) (es @ es')) = globalOffset (run (init cfg) es)"
    if set: "globalOffset (run (init cfg) es) \<noteq> None"
  proof -
    let ?s = "run (init cfg) es"
    have "inv_all ?s" by (rule inv_reach)
    then have f: "inv_frame ?s" by (simp add: inv_all_def)
    with set have n: "BaseLoad \<notin> set (in_flight ?s)" by (auto simp: inv_frame_def)
    from frame_kept_run [OF f n, of es'] show ?thesis by (simp add: run_append)
  qed
  have 6: "placed (run (init cfg) es) m" if "m \<in> set (scene (run (init cfg) es))" for m
  proof -
    have "inv_all (run (init cfg) es)" by (rule inv_reach)
    with that show ?thesis by (simp add: inv_all_def inv_frame_def)
  qed
  from 1 2 3 4 5 6 show ?thesis by blast
qed

theorem frame_assigned_at_most_once_witness:
  "frame_assignments (init example_cfg)
     [Loaded 0 example_base, Loaded 1 example_part, Loaded 2 example_part] = 1 \<and>
   frame_assignments (init example_cfg) [KeyDown ''Digit1''] = 0 \<and>
   frame_assignments (init example_cfg) [KeyDown ''Digit1'', Failed 0, Loaded 1 example_part] = 0 \<and>
   assigns_frame (init example_cfg) (Loaded 0 example_base) \<and>
   globalScale (step (init example_cfg) (Loaded 0 example_base)) = Some (Fin (1 / 2)) \<and>
   globalOffset (step (init example_cfg) (Loaded 0 example_base)) =
     Some (Vec3 (Fin (1 / 2)) (Fin 1) (Fin (3 / 2))) \<and>
   \<not> assigns_frame example_base_loaded (Loaded 1 example_part) \<and>
   globalScale (step example_base_loaded (Loaded 1 example_part)) = Some (Fin (1 / 2)) \<and>
   globalOffset (run (init example_cfg) [Loaded 0 example_base]) \<noteq> None \<and>
   globalOffset (run (init example_cfg)
      ([Loaded 0 example_base] @ [Loaded 1 example_part, Loaded 2 example_part])) =
     Some (Vec3 (Fin (1 / 2)) (Fin 1) (Fin (3 / 2))) \<and>
   light_off 2 \<in> set (scene (run (init example_cfg)
      [Loaded 0 example_base, Loaded 1 example_part, Loaded 2 example_part])) \<and>
   placed (run (init example_cfg)
      [Loaded 0 example_base, Loaded 1 example_part, Loaded 2 example_part]) (light_off 2)"
proof -
  let ?es = "[Loaded 0 example_base, Loaded 1 example_part, Loaded 2 example_part]"
  note t = frame_assigned_at_most_once [of example_cfg ?es "[]"
      "[Loaded 1 example_part, Loaded 2 example_part]" example_base "[]"]
  note u = frame_assigned_at_most_once [of example_cfg "[Loaded 0 example_base]"
      "[KeyDown ''Digit1'']" "[Loaded 1 example_part]" example_base
      "[Loaded 1 example_part, Loaded 2 example_part]"]
  have h0: "list_all (\<lambda>e. \<not> resolves 0 e) []" by simp
  with t have "frame_assignments (init example_cfg)
      ([] @ Loaded 0 example_base # [Loaded 1 example_part, Loaded 2 example_part]) = 1"
    by blast
  then have 1: "frame_assignments (init example_cfg) ?es = 1" by (simp only: append_Nil)
  have h1: "list_all (\<lambda>e. \<not> resolves 0 e) [KeyDown ''Digit1'']" by simp
  with u have k: "frame_assignments (init example_cfg) [KeyDown ''Digit1''] = 0"
    and "frame_assignments (init example_cfg)
      ([KeyDown ''Digit1''] @ Failed 0 # [Loaded 1 example_part]) = 0"
    by blast+
  then have f: "frame_assignments (init example_cfg)
      [KeyDown ''Digit1'', Failed 0, Loaded 1 example_part] = 0"
    by (simp only: append_Cons append_Nil)
  have a: "assigns_frame (init example_cfg) (Loaded 0 example_base)"
    by (simp add: init_fields)
  from t a have 2: "globalScale (step (init example_cfg) (Loaded 0 example_base)) =
      Some (frame_scale example_base)"
    and 3: "globalOffset (step (init example_cfg) (Loaded 0 example_base)) =
      Some (frame_offset example_base)"
    by blast+
  have n: "\<not> assigns_frame example_base_loaded (Loaded 1 example_part)"
    by (simp add: example_base_loaded_def)
  from t n have "globalScale (step example_base_loaded (Loaded 1 example_part)) =
      globalScale example_base_loaded" by blast
  then have 4: "globalScale (step example_base_loaded (Loaded 1 example_part)) = Some (Fin (1 / 2))"
    by (simp add: example_base_loaded_def)
  have r1: "run (init example_cfg) [Loaded 0 example_base] = example_base_loaded"
    by (simp only: run_Cons run_Nil example_step1)
  then have s: "globalOffset (run (init example_cfg) [Loaded 0 example_base]) \<noteq> None"
    by (simp add: example_base_loaded_def)
  from u s have "globalOffset (run (init example_cfg)
      ([Loaded 0 example_base] @ [Loaded 1 example_part, Loaded 2 example_part])) =
      globalOffset (run (init example_cfg) [Loaded 0 example_base])" by blast
  then have 5: "globalOffset (run (init example_cfg)
      ([Loaded 0 example_base] @ [Loaded 1 example_part, Loaded 2 example_part])) =
      Some (Vec3 (Fin (1 / 2)) (Fin 1) (Fin (3 / 2)))"
    by (simp only: r1) (simp add: example_base_loaded_def)
  have m: "light_off 2 \<in> set (scene (run (init example_cfg) ?es))"
    unfolding example_run by (simp add: example_all_loaded_def)
  with t have 6: "placed (run (init example_cfg) ?es) (light_off 2)" by blast
  from 1 k f a 2 3 n 4 s 5 m 6 show ?thesis by (simp add: example_frame)
qed

section \<open>One mesh per key slot\<close>








section \<open>When the previous mesh is read\<close>

text \<open>
  C8, as stated, fails. In the example session the slot shows the off variant (root 2)
  when the key goes down and load 3 (on) is issued; the key goes up and load 4 (off) is
  issued; load 4 calls back first and puts root 3 in place of root 2. When load 3 then
  calls back, the source removes root 3, the mesh of the slot at that moment, and leaves
  roots 0, 1, 4; a callback holding the mesh captured when load 3 was issued (root 2)
  would leave roots 0, 1, 3, 4.
\<close>

theorem previous_mesh_captured_counterexample:
  "slot_mesh (run (init example_cfg)
      [Loaded 0 example_base, Loaded 1 example_part, Loaded 2 example_part]) ''Digit1'' =
     Some (light_off 2) \<and>
   map_of (pending (step (run (init example_cfg)
      [Loaded 0 example_base, Loaded 1 example_part, Loaded 2 example_part])
        (KeyDown ''Digit1''))) 3 = Some (KeyLoad ''Digit1'' ''light_on.glb'') \<and>
   map oid (scene (loadKeyModel_onLoad ''Digit1'' ''light_on.glb'' example_part
      (settled 3 (run (init example_cfg)
        [Loaded 0 example_base, Loaded 1 example_part, Loaded 2 example_part,
         KeyDown ''Digit1'', KeyUp ''Digit1'', Loaded 4 example_part])))) = [0, 1, 4] \<and>
   map oid (scene (loadKeyModel_onLoad_captured (Some (light_off 2))
      ''Digit1'' ''light_on.glb'' example_part
      (settled 3 (run (init example_cfg)
        [Loaded 0 example_base, Loaded 1 example_part, Loaded 2 example_part,
         KeyDown ''Digit1'', KeyUp ''Digit1'', Loaded 4 example_part])))) = [0, 1, 3, 4]"
proof -
  have r6: "run (init example_cfg)
        [Loaded 0 example_base, Loaded 1 example_part, Loaded 2 example_part,
         KeyDown ''Digit1'', KeyUp ''Digit1'', Loaded 4 example_part] =
      example_all_loaded (Some (light_off 3)) False [light_off 3]
        [(3, KeyLoad ''Digit1'' ''light_on.glb'')] 5 4 []"
    by (simp only: run_Cons run_Nil example_steps)
  have 1: "slot_mesh (run (init example_cfg)
      [Loaded 0 example_base, Loaded 1 example_part, Loaded 2 example_part]) ''Digit1'' =
     Some (light_off 2)"
    unfolding example_run by (simp add: slot_mesh_def example_all_loaded_def)
  have 2: "map_of (pending (step (run (init example_cfg)
      [Loaded 0 example_base, Loaded 1 example_part, Loaded 2 example_part])
        (KeyDown ''Digit1''))) 3 = Some (KeyLoad ''Digit1'' ''light_on.glb'')"
    unfolding example_run example_step4 by (simp add: example_all_loaded_def)
  have 3: "map oid (scene (loadKeyModel_onLoad ''Digit1'' ''light_on.glb'' example_part
      (settled 3 (example_all_loaded (Some (light_off 3)) False [light_off 3]
        [(3, KeyLoad ''Digit1'' ''light_on.glb'')] 5 4 [])))) = [0, 1, 4]"
    by (simp add: example_all_loaded_def model_eval)
  have 4: "map oid (scene (loadKeyModel_onLoad_captured (Some (light_off 2))
      ''Digit1'' ''light_on.glb'' example_part
      (settled 3 (example_all_loaded (Some (light_off 3)) False [light_off 3]
        [(3, KeyLoad ''Digit1'' ''light_on.glb'')] 5 4 [])))) = [0, 1, 3, 4]"
    by (simp add: example_all_loaded_def loadKeyModel_onLoad_captured_def model_eval)
  from 1 2 3 4 show ?thesis unfolding r6 by simp
qed

text \<open>
  C8, amended. The reference to the previous mesh is read when the load calls back, not
  when it is issued: the success callback is the one of the specification run with the
  mesh the slot references at that moment. Issuing the load (a key-down or a key-up)
  changes neither the scene nor the mesh of any slot, and neither does a failing load, so
  the old mesh stays resident until a load of its slot arrives.
\<close>

theorem previous_mesh_read_on_completion:
  "loadKeyModel_onLoad code path g s =
     loadKeyModel_onLoad_captured (slot_mesh s code) code path g s \<and>
   scene (step s (KeyDown code)) = scene s \<and>
   scene (step s (KeyUp code)) = scene s \<and>
   slot_mesh (step s (KeyDown code)) c = slot_mesh s c \<and>
   slot_mesh (step s (KeyUp code)) c = slot_mesh s c \<and>
   scene (step s (Failed l)) = scene s \<and>
   slot_mesh (step s (Failed l)) c = slot_mesh s c"
proof (intro conjI)
  show "loadKeyModel_onLoad code path g s =
      loadKeyModel_onLoad_captured (slot_mesh s code) code path g s"
    by (simp add: loadKeyModel_onLoad_def loadKeyModel_onLoad_captured_def slot_mesh_def Let_def
        split: option.splits)
  show "scene (step s (KeyDown code)) = scene s"
    by (simp add: step.simps keydown_eq split: option.splits)
  show "scene (step s (KeyUp code)) = scene s"
    by (simp add: step.simps keyup_eq split: option.splits)
  show "slot_mesh (step s (KeyDown code)) c = slot_mesh s c"
  proof (cases "map_of (keyModels s) code")
    case None
    then show ?thesis by (simp add: step.simps keydown_eq)
  next
    case (Some km)
    then show ?thesis
      by (cases "pressed km") (simp_all add: step.simps keydown_eq slot_mesh_pressed)
  qed
  show "slot_mesh (step s (KeyUp code)) c = slot_mesh s c"
  proof (cases "map_of (keyModels s) code")
    case None
    then show ?thesis by (simp add: step.simps keyup_eq)
  next
    case (Some km)
    then show ?thesis
      by (cases "pressed km") (simp_all add: step.simps keyup_eq slot_mesh_pressed)
  qed
  show "scene (step s (Failed l)) = scene s"
    by (cases "map_of (pending s) l") (simp_all add: step.simps take_pending_def onError_eq)
  show "slot_mesh (step s (Failed l)) c = slot_mesh s c"
    by (cases "map_of (pending s) l")
      (simp_all add: step.simps take_pending_def onError_eq slot_mesh_def)
qed

theorem previous_mesh_read_on_completion_witness:
  "slot_mesh (settled 3 (example_all_loaded (Some (light_off 3)) False [light_off 3]
      [(3, KeyLoad ''Digit1'' ''light_on.glb'')] 5 4 [])) ''Digit1'' = Some (light_off 3) \<and>
   map oid (scene (loadKeyModel_onLoad_captured (Some (light_off 3))
      ''Digit1'' ''light_on.glb'' example_part
      (settled 3 (example_all_loaded (Some (light_off 3)) False [light_off 3]
        [(3, KeyLoad ''Digit1'' ''light_on.glb'')] 5 4 [])))) = [0, 1, 4] \<and>
   scene (step (example_all_loaded (Some (light_off 2)) False [light_off 2] [] 3 3 [])
        (KeyDown ''Digit1'')) =
     [example_root 0 BaseLoad 2, example_root 1 (SecondaryLoad 1) 1, light_off 2]"
proof -
  let ?s = "settled 3 (example_all_loaded (Some (light_off 3)) False [light_off 3]
      [(3, KeyLoad ''Digit1'' ''light_on.glb'')] 5 4 [])"
  let ?t = "example_all_loaded (Some (light_off 2)) False [light_off 2] [] 3 3 []"
  note t = previous_mesh_read_on_completion [of "''Digit1''" "''light_on.glb''" example_part ?s]
  note u = previous_mesh_read_on_completion [of "''Digit1''" "''light_on.glb''" example_part ?t]
  have 1: "slot_mesh ?s ''Digit1'' = Some (light_off 3)"
    by (simp add: slot_mesh_def example_all_loaded_def)
  have "map oid (scene (loadKeyModel_onLoad ''Digit1'' ''light_on.glb'' example_part ?s)) = [0, 1, 4]"
    by (simp add: example_all_loaded_def model_eval)
  with t 1 have 2: "map oid (scene (loadKeyModel_onLoad_captured (Some (light_off 3))
      ''Digit1'' ''light_on.glb'' example_part ?s)) = [0, 1, 4]"
    by simp
  from u have 3: "scene (step ?t (KeyDown ''Digit1'')) =
      [example_root 0 BaseLoad 2, example_root 1 (SecondaryLoad 1) 1, light_off 2]"
    by (simp add: example_all_loaded_def)
  from 1 2 3 show ?thesis by simp
qed

section \<open>The base asset comes first\<close>

lemma inv_base_step:
  assumes "inv_all s" "inv_base s"
  shows "inv_base (step s e)"
  using assms
proof (induction s e rule: step_cases)
  case (unknown l)
  then show ?case by simp
next
  case (base l g)
  show ?case by (simp add: inv_base_def onBase_fields)
next
  case (secondary l i g)
  show ?case
  proof (cases "globalOffset (settled l s)")
    case None
    then show ?thesis by (simp add: inv_base_def onSecondary_threw)
  next
    case (Some off)
    with secondary(3) show ?thesis
      by (auto simp: inv_base_def onSecondary_fields [OF Some])
  qed
next
  case (key l c p g)
  show ?case
  proof (cases "globalOffset (settled l s) = None \<or> map_of (keyModels (settled l s)) c = None")
    case True
    show ?thesis
    proof (cases "globalOffset s")
      case None
      then show ?thesis by (simp add: inv_base_def onKey_threw [OF True])
    next
      case (Some off)
      with True have "map_of (keyModels s) c = None" by simp
      then have "slot_mesh s c = None" by (simp add: slot_mesh_def)
      with key(3) show ?thesis by (simp add: inv_base_def onKey_threw [OF True])
    qed
  next
    case False
    then obtain off km where o: "globalOffset (settled l s) = Some off"
      and k: "map_of (keyModels (settled l s)) c = Some km" by auto
    from o key(3) obtain m0 where m0: "m0 \<in> set (scene s)" "source m0 = BaseLoad"
      and ld: "1 \<le> loaded s"
      by (auto simp: inv_base_def)
    from key(2) have ids: "inv_ids s" and sl: "inv_slots s" by (simp_all add: inv_all_def)
    have keep: "m0 \<in> set (scene (loadKeyModel_onLoad c p g (settled l s)))"
    proof (cases "mesh km")
      case None
      with m0 show ?thesis by (simp add: onKey_fields [OF o k])
    next
      case (Some prev)
      with k have "slot_mesh s c = Some prev" by (simp add: slot_mesh_def)
      from slot_mesh_key_of [OF sl this] have pk: "key_of c prev" and pin: "prev \<in> set (scene s)"
        by simp_all
      have "oid m0 \<noteq> oid prev"
      proof
        assume e: "oid m0 = oid prev"
        from ids have "inj_on oid (set (scene s))" by (simp add: inv_ids_def distinct_map)
        with e m0(1) pin have "m0 = prev" by (auto dest: inj_onD)
        with pk m0(2) show False by (simp add: key_of_def)
      qed
      with m0 Some show ?thesis by (simp add: onKey_fields [OF o k])
    qed
    with m0(2) ld show ?thesis
      by (auto simp: inv_base_def onKey_fields(6) [OF o k])
  qed
next
  case (failed l k)
  then show ?case by (simp add: inv_base_def onError_eq)
next
  case (keydown c)
  then show ?case by (auto simp: inv_base_def keydown_eq split: option.splits)
next
  case (keyup c)
  then show ?case by (auto simp: inv_base_def keyup_eq split: option.splits)
qed

lemma inv_base_reach: "inv_base (run (init cfg) es)"
proof (induction es rule: rev_induct)
  case Nil
  show ?case by (simp add: inv_base_def init_fields)
next
  case (snoc e es)
  have "inv_all (run (init cfg) es)" by (rule inv_reach)
  from inv_base_step [OF this snoc] show ?case by (simp add: run_snoc)
qed

lemma secondary_in_flight_frame:
  assumes "inv_count s" "SecondaryLoad i \<in> set (in_flight s)"
  shows "globalOffset s \<noteq> None"
proof
  assume "globalOffset s = None"
  from inv_countD(4) [OF assms(1) this assms(2)] show False by (simp add: is_asset_load_def)
qed

text \<open>
  C4. \<open>init\<close> issues one load, that of \<open>paths[0]\<close>. While a load of \<open>paths[1..]\<close>
  is in flight, the base asset has called back: its load is no longer in flight, scale and
  offset are set, its root is in the scene carrying rotation, scale, offset and shadow
  flags, and it has been counted. The success callback of the base asset stores the frame,
  adds the placed root, binds its clips, increments the counter and only then issues the
  loads of \<open>paths[1..]\<close>, in order. Whichever of those loads calls back, in any state of
  the session, its root is added carrying the stored rotation, scale and offset, the
  counter goes up by one, and the frame is left as it is.
\<close>

theorem base_asset_first:
  "pending (init cfg) = [(0, BaseLoad)] \<and>
   (SecondaryLoad i \<in> set (in_flight (run (init cfg) es)) \<longrightarrow>
      BaseLoad \<notin> set (in_flight (run (init cfg) es)) \<and>
      globalOffset (run (init cfg) es) \<noteq> None \<and>
      (\<exists>m \<in> set (scene (run (init cfg) es)). source m = BaseLoad \<and> placed (run (init cfg) es) m) \<and>
      1 \<le> loaded (run (init cfg) es)) \<and>
   (assigns_frame s (Loaded l g) \<longrightarrow>
      globalScale (step s (Loaded l g)) = Some (frame_scale g) \<and>
      globalOffset (step s (Loaded l g)) = Some (frame_offset g) \<and>
      scene (step s (Loaded l g)) =
        scene s @ [place s (Some (frame_scale g)) (frame_offset g) (gltf_scene (nextObj s) BaseLoad g)] \<and>
      placed (step s (Loaded l g))
        (place s (Some (frame_scale g)) (frame_offset g) (gltf_scene (nextObj s) BaseLoad g)) \<and>
      mixers (step s (Loaded l g)) =
        (if animations g \<noteq> [] then mixers s @ [(nextObj s, animations g)] else mixers s) \<and>
      loaded (step s (Loaded l g)) = Suc (loaded s) \<and>
      in_flight (step s (Loaded l g)) =
        in_flight (settled l s) @
        (if Suc (loaded s) = length (modelPaths s) then key_off_loads s else []) @
        map SecondaryLoad [1..<length (modelPaths s)]) \<and>
   (map_of (pending (run (init cfg) es)) l = Some (SecondaryLoad i) \<longrightarrow>
      (\<exists>m. scene (run (init cfg) (es @ [Loaded l g])) = scene (run (init cfg) es) @ [m] \<and>
           source m = SecondaryLoad i \<and> placed (run (init cfg) (es @ [Loaded l g])) m) \<and>
      loaded (run (init cfg) (es @ [Loaded l g])) = Suc (loaded (run (init cfg) es)) \<and>
      globalScale (run (init cfg) (es @ [Loaded l g])) = globalScale (run (init cfg) es) \<and>
      globalOffset (run (init cfg) (es @ [Loaded l g])) = globalOffset (run (init cfg) es))"
proof (intro conjI impI)
  show "pending (init cfg) = [(0, BaseLoad)]" by (simp add: init_fields)
next
  let ?s = "run (init cfg) es"
  assume a: "SecondaryLoad i \<in> set (in_flight ?s)"
  have "inv_all ?s" by (rule inv_reach)
  then have fr: "inv_frame ?s" and cn: "inv_count ?s" by (simp_all add: inv_all_def)
  from secondary_in_flight_frame [OF cn a] show off: "globalOffset ?s \<noteq> None" .
  with fr show "BaseLoad \<notin> set (in_flight ?s)" by (auto simp: inv_frame_def)
  have b: "inv_base ?s" by (rule inv_base_reach)
  with off show "1 \<le> loaded ?s" by (simp add: inv_base_def)
  from b off obtain m where "m \<in> set (scene ?s)" "source m = BaseLoad"
    by (auto simp: inv_base_def)
  moreover with fr have "placed ?s m" by (simp add: inv_frame_def)
  ultimately show "\<exists>m \<in> set (scene ?s). source m = BaseLoad \<and> placed ?s m" by blast
next
  assume a: "assigns_frame s (Loaded l g)"
  note st = assigns_frame_step [OF a]
  show "globalScale (step s (Loaded l g)) = Some (frame_scale g)"
    "globalOffset (step s (Loaded l g)) = Some (frame_offset g)"
    "mixers (step s (Loaded l g)) =
        (if animations g \<noteq> [] then mixers s @ [(nextObj s, animations g)] else mixers s)"
    "loaded (step s (Loaded l g)) = Suc (loaded s)"
    by (simp_all add: st onBase_fields)
  show "scene (step s (Loaded l g)) =
      scene s @ [place s (Some (frame_scale g)) (frame_offset g) (gltf_scene (nextObj s) BaseLoad g)]"
    by (simp add: st onBase_fields place_def)
  show "placed (step s (Loaded l g))
      (place s (Some (frame_scale g)) (frame_offset g) (gltf_scene (nextObj s) BaseLoad g))"
    by (rule placed_place) (simp_all add: st onBase_fields)
  show "in_flight (step s (Loaded l g)) =
      in_flight (settled l s) @
      (if Suc (loaded s) = length (modelPaths s) then key_off_loads s else []) @
      map SecondaryLoad [1..<length (modelPaths s)]"
    by (simp add: st onBase_fields in_flight_def key_off_loads_def)
next
  let ?s = "run (init cfg) es"
  let ?s' = "run (init cfg) (es @ [Loaded l g])"
  assume a: "map_of (pending ?s) l = Some (SecondaryLoad i)"
  then have "(l, SecondaryLoad i) \<in> set (pending ?s)" by (rule map_of_SomeD)
  then have inf: "SecondaryLoad i \<in> set (in_flight ?s)" by (force simp: in_flight_def)
  have "inv_all ?s" by (rule inv_reach)
  then have cn: "inv_count ?s" by (simp add: inv_all_def)
  from secondary_in_flight_frame [OF cn inf] obtain off where o0: "globalOffset ?s = Some off"
    by auto
  then have o: "globalOffset (settled l ?s) = Some off" by simp
  from a have st: "?s' = loadModels_onSecondary i g (settled l ?s)"
    by (simp add: run_snoc step.simps take_pending_def)
  let ?m = "place (settled l ?s) (globalScale (settled l ?s)) off
      (gltf_scene (nextObj (settled l ?s)) (SecondaryLoad i) g)"
  have "scene ?s' = scene ?s @ [?m]" by (simp add: st onSecondary_fields [OF o])
  moreover have "source ?m = SecondaryLoad i" by simp
  moreover have "placed ?s' ?m"
    by (rule placed_place) (simp_all add: st onSecondary_fields [OF o] o0)
  ultimately show "\<exists>m. scene ?s' = scene ?s @ [m] \<and> source m = SecondaryLoad i \<and> placed ?s' m"
    by blast
  show "loaded ?s' = Suc (loaded ?s)" "globalScale ?s' = globalScale ?s"
    "globalOffset ?s' = globalOffset ?s"
    by (simp_all add: st onSecondary_fields [OF o])
qed

theorem base_asset_first_witness:
  "SecondaryLoad 1 \<in> set (in_flight (run (init example_cfg) [Loaded 0 example_base])) \<and>
   BaseLoad \<notin> set (in_flight (run (init example_cfg) [Loaded 0 example_base])) \<and>
   1 \<le> loaded (run (init example_cfg) [Loaded 0 example_base]) \<and>
   assigns_frame (init example_cfg) (Loaded 0 example_base) \<and>
   loaded (step (init example_cfg) (Loaded 0 example_base)) = 1 \<and>
   in_flight (step (init example_cfg) (Loaded 0 example_base)) = [SecondaryLoad 1] \<and>
   map_of (pending (run (init example_cfg) [Loaded 0 example_base])) 1 = Some (SecondaryLoad 1) \<and>
   loaded (run (init example_cfg) ([Loaded 0 example_base] @ [Loaded 1 example_part])) = 2 \<and>
   globalScale (run (init example_cfg) ([Loaded 0 example_base] @ [Loaded 1 example_part])) =
     Some (Fin (1 / 2))"
proof -
  let ?es = "[Loaded 0 example_base]"
  have r: "run (init example_cfg) ?es = example_base_loaded"
    by (simp only: run_Cons run_Nil example_step1)
  note t = base_asset_first [of example_cfg 1 ?es "init example_cfg" 0 example_base]
  note u = base_asset_first [of example_cfg 1 ?es "init example_cfg" 1 example_part]
  have 1: "SecondaryLoad 1 \<in> set (in_flight (run (init example_cfg) ?es))"
    unfolding r by (simp add: in_flight_def example_base_loaded_def)
  with t have 2: "BaseLoad \<notin> set (in_flight (run (init example_cfg) ?es))"
    and 3: "1 \<le> loaded (run (init example_cfg) ?es)"
    by blast+
  have a: "assigns_frame (init example_cfg) (Loaded 0 example_base)"
    by (simp add: init_fields)
  with t have "loaded (step (init example_cfg) (Loaded 0 example_base)) =
      Suc (loaded (init example_cfg))"
    and "in_flight (step (init example_cfg) (Loaded 0 example_base)) =
      in_flight (settled 0 (init example_cfg)) @
      (if Suc (loaded (init example_cfg)) = length (modelPaths (init example_cfg))
       then key_off_loads (init example_cfg) else []) @
      map SecondaryLoad [1..<length (modelPaths (init example_cfg))]"
    by blast+
  then have 4: "loaded (step (init example_cfg) (Loaded 0 example_base)) = 1"
    and 5: "in_flight (step (init example_cfg) (Loaded 0 example_base)) = [SecondaryLoad 1]"
    by (simp_all add: init_fields in_flight_def example_cfg_def upt_rec)
  have p: "map_of (pending (run (init example_cfg) ?es)) 1 = Some (SecondaryLoad 1)"
    unfolding r by (simp add: example_base_loaded_def)
  with u have "loaded (run (init example_cfg) (?es @ [Loaded 1 example_part])) =
      Suc (loaded (run (init example_cfg) ?es))"
    and "globalScale (run (init example_cfg) (?es @ [Loaded 1 example_part])) =
      globalScale (run (init example_cfg) ?es)"
    by blast+
  then have 6: "loaded (run (init example_cfg) (?es @ [Loaded 1 example_part])) = 2"
    and 7: "globalScale (run (init example_cfg) (?es @ [Loaded 1 example_part])) = Some (Fin (1 / 2))"
    unfolding r by (simp_all add: example_base_loaded_def)
  from 1 2 3 a 4 5 p 6 7 show ?thesis by blast
qed

section \<open>A degenerate bounding box\<close>





section \<open>Rounding to a double\<close>

subsection \<open>Powers of two\<close>

lemma pow2_pos [simp]: "0 < (2::real) powi e"
  by (simp add: zero_less_power_int)

lemma pow2_add: "(2::real) powi (a + b) = 2 powi a * 2 powi b"
  by (simp add: power_int_add)

lemma pow2_Suc: "(2::real) powi (e + 1) = 2 * 2 powi e"
  by (simp add: power_int_add)

lemma pow2_pred: "(2::real) powi (e - 1) = 2 powi e / 2"
  using pow2_Suc [of "e - 1"] by simp

lemma pow2_div: "(2::real) powi a / 2 powi b = 2 powi (a - b)"
  by (simp add: power_int_diff)

lemma pow2_mono: "a \<le> b \<Longrightarrow> (2::real) powi a \<le> 2 powi b"
  by (rule power_int_increasing) simp_all

lemma pow2_less_imp: "(2::real) powi a < 2 powi b \<Longrightarrow> a < b"
proof (rule ccontr)
  assume "2 powi a < (2::real) powi b" and "\<not> a < b"
  then have "(2::real) powi b \<le> 2 powi a" by (simp add: pow2_mono)
  with \<open>2 powi a < (2::real) powi b\<close> show False by simp
qed

subsection \<open>The binade\<close>

lemma ilog2_bounds: "0 < x \<Longrightarrow> 2 powi (ilog2 x) \<le> x \<and> x < 2 powi (ilog2 x + 1)"
proof (induction x rule: ilog2.induct)
  case (1 x)
  show ?case
  proof (cases "x < 1")
    case True
    with "1.prems" have e: "ilog2 x = ilog2 (2 * x) - 1"
      by (subst ilog2.simps) simp
    from "1.IH"(1) "1.prems" True
    have "2 powi (ilog2 (2 * x)) \<le> 2 * x" "2 * x < 2 powi (ilog2 (2 * x) + 1)"
      by simp_all
    then show ?thesis by (simp add: e pow2_pred pow2_Suc)
  next
    case False
    show ?thesis
    proof (cases "2 \<le> x")
      case True
      with "1.prems" False have e: "ilog2 x = ilog2 (x / 2) + 1"
        by (subst ilog2.simps) simp
      from "1.IH"(2) "1.prems" False True
      have "2 powi (ilog2 (x / 2)) \<le> x / 2" "x / 2 < 2 powi (ilog2 (x / 2) + 1)"
        by simp_all
      then have "2 * 2 powi (ilog2 (x / 2)) \<le> x" "x < 2 * 2 powi (ilog2 (x / 2) + 1)"
        by simp_all
      then show ?thesis by (simp only: e pow2_Suc [symmetric] simp_thms)
    next
      case n2: False
      with "1.prems" False have "ilog2 x = 0"
        by (subst ilog2.simps) simp
      with False n2 show ?thesis by simp
    qed
  qed
qed


lemma ilog2_mono: "0 < x \<Longrightarrow> x \<le> y \<Longrightarrow> ilog2 x \<le> ilog2 y"
proof -
  assume x: "0 < x" and xy: "x \<le> y"
  then have y: "0 < y" by simp
  from ilog2_bounds [OF x] ilog2_bounds [OF y] xy
  have "2 powi (ilog2 x) < (2::real) powi (ilog2 y + 1)" by linarith
  then have "ilog2 x < ilog2 y + 1" by (rule pow2_less_imp)
  then show ?thesis by simp
qed

subsection \<open>Rounding to an integer\<close>

lemma rte_cases:
  "rte y = \<lfloor>y\<rfloor> \<and> y - of_int \<lfloor>y\<rfloor> \<le> 1 / 2 \<or> rte y = \<lfloor>y\<rfloor> + 1 \<and> 1 / 2 \<le> y - of_int \<lfloor>y\<rfloor>"
  by (auto simp: rte_def Let_def)

lemma rte_err: "\<bar>of_int (rte y) - y\<bar> \<le> 1 / 2"
proof -
  have "of_int \<lfloor>y\<rfloor> \<le> y" "y < of_int \<lfloor>y\<rfloor> + 1" by linarith+
  with rte_cases [of y] show ?thesis by auto
qed

lemma rte_of_int [simp]: "rte (of_int n) = n"
  by (simp add: rte_def)

lemma rte_mono: "x \<le> y \<Longrightarrow> rte x \<le> rte y"
proof -
  assume xy: "x \<le> y"
  then have fl: "\<lfloor>x\<rfloor> \<le> \<lfloor>y\<rfloor>" by (rule floor_mono)
  show ?thesis
  proof (cases "\<lfloor>x\<rfloor> = \<lfloor>y\<rfloor>")
    case True
    with xy have "x - of_int \<lfloor>x\<rfloor> \<le> y - of_int \<lfloor>y\<rfloor>" by simp
    with True show ?thesis by (auto simp: rte_def Let_def)
  next
    case False
    with fl have "\<lfloor>x\<rfloor> + 1 \<le> \<lfloor>y\<rfloor>" by simp
    moreover have "rte x \<le> \<lfloor>x\<rfloor> + 1" using rte_cases [of x] by auto
    moreover have "\<lfloor>y\<rfloor> \<le> rte y" using rte_cases [of y] by auto
    ultimately show ?thesis by linarith
  qed
qed

subsection \<open>Rounding a positive real\<close>

lemma ulp_pos [simp]: "0 < ulp a"
  by (simp add: ulp_def)

lemma ulp_nonneg [simp]: "0 \<le> ulp a"
  using ulp_pos [of a] by (rule less_imp_le)

lemma ulp_nz [simp]: "ulp a \<noteq> 0"
  using ulp_pos [of a] by (rule less_imp_neq [symmetric])

lemma div_ulp_mono: "a \<le> b \<Longrightarrow> a / ulp c \<le> b / ulp c"
  by (rule divide_right_mono) simp_all

lemma rnd_err: "\<bar>rnd a - a\<bar> \<le> ulp a / 2"
proof -
  have "rnd a - a = (of_int (rte (a / ulp a)) - a / ulp a) * ulp a"
    by (simp add: rnd_def algebra_simps)
  then have "\<bar>rnd a - a\<bar> = \<bar>of_int (rte (a / ulp a)) - a / ulp a\<bar> * ulp a"
    by (simp add: abs_mult)
  also have "\<dots> \<le> (1 / 2) * ulp a"
    by (rule mult_right_mono [OF rte_err]) simp
  finally show ?thesis by simp
qed

lemma ulp_normal:
  assumes "2 powi (- 1022) \<le> a"
  shows "ulp a = 2 powi (ilog2 a - 52)" and "ulp a \<le> a * 2 powi (- 52)"
proof -
  have a: "0 < a" using assms pow2_pos [of "- 1022"] by linarith
  from ilog2_bounds [OF a] assms have "2 powi (- 1022) < (2::real) powi (ilog2 a + 1)"
    by linarith
  then have "- 1022 < ilog2 a + 1" by (rule pow2_less_imp)
  then have m: "max (ilog2 a) (- 1022) = ilog2 a" by simp
  show u: "ulp a = 2 powi (ilog2 a - 52)" by (simp add: ulp_def m)
  have "ulp a = 2 powi (ilog2 a) * 2 powi (- 52)"
    using pow2_add [of "ilog2 a" "- 52"] by (simp add: u)
  also have "\<dots> \<le> a * 2 powi (- 52)"
    using ilog2_bounds [OF a] by (intro mult_right_mono) simp_all
  finally show "ulp a \<le> a * 2 powi (- 52)" .
qed

lemma rnd_err_normal:
  assumes "2 powi (- 1022) \<le> a"
  shows "\<bar>rnd a - a\<bar> \<le> a * 2 powi (- 53)"
proof -
  have "\<bar>rnd a - a\<bar> \<le> ulp a / 2" by (rule rnd_err)
  also have "\<dots> \<le> (a * 2 powi (- 52)) / 2"
    using ulp_normal(2) [OF assms] by simp
  also have "\<dots> = a * 2 powi (- 53)"
    using pow2_pred [of "- 52"] by simp
  finally show ?thesis .
qed


text \<open>Within its binade a positive real rounds to a value of that binade or to its upper end.\<close>

lemma rnd_binade:
  assumes "0 < a"
  defines "e \<equiv> max (ilog2 a) (- 1022)"
  shows "rnd a \<le> 2 powi (e + 1)" and "- 1022 \<le> ilog2 a \<Longrightarrow> 2 powi e \<le> rnd a"
proof -
  have u: "ulp a = 2 powi (e - 52)" by (simp add: ulp_def e_def)
  have up: "a < 2 powi (e + 1)"
  proof -
    from ilog2_bounds [OF assms(1)] have "a < 2 powi (ilog2 a + 1)" by simp
    also have "\<dots> \<le> 2 powi (e + 1)" by (rule pow2_mono) (simp add: e_def)
    finally show ?thesis .
  qed
  have s: "2 powi (e + 1) / ulp a = (2::real) powi 53"
  proof -
    have "(e + 1) - (e - 52) = 53" by simp
    then show ?thesis by (simp only: u pow2_div)
  qed
  have "a / ulp a \<le> 2 powi (e + 1) / ulp a"
    using up by (intro div_ulp_mono) simp
  then have "a / ulp a \<le> of_int (2 ^ 53)" by (simp add: s)
  then have "rte (a / ulp a) \<le> rte (of_int (2 ^ 53))" by (rule rte_mono)
  then have "rte (a / ulp a) \<le> 2 ^ 53" by (simp only: rte_of_int)
  then have "(of_int (rte (a / ulp a)) :: real) \<le> of_int (2 ^ 53)" by (simp only: of_int_le_iff)
  then have "rnd a \<le> of_int (2 ^ 53) * ulp a"
    unfolding rnd_def by (rule mult_right_mono) simp
  also have "\<dots> = 2 powi (e + 1)"
    using s by (simp add: field_simps)
  finally show "rnd a \<le> 2 powi (e + 1)" .
  assume "- 1022 \<le> ilog2 a"
  then have el: "e = ilog2 a" by (simp add: e_def)
  have t: "2 powi e / ulp a = (2::real) powi 52"
  proof -
    have "e - (e - 52) = 52" by simp
    then show ?thesis by (simp only: u pow2_div)
  qed
  from ilog2_bounds [OF assms(1)] have "2 powi e \<le> a" by (simp add: el)
  then have "2 powi e / ulp a \<le> a / ulp a" by (rule div_ulp_mono)
  then have "of_int (2 ^ 52) \<le> a / ulp a" by (simp add: t)
  then have "rte (of_int (2 ^ 52)) \<le> rte (a / ulp a)" by (rule rte_mono)
  then have "2 ^ 52 \<le> rte (a / ulp a)" by (simp only: rte_of_int)
  then have "(of_int (2 ^ 52) :: real) \<le> of_int (rte (a / ulp a))" by (simp only: of_int_le_iff)
  then have "of_int (2 ^ 52) * ulp a \<le> rnd a"
    unfolding rnd_def by (rule mult_right_mono) simp
  moreover have "of_int (2 ^ 52) * ulp a = 2 powi e"
    using t by (simp add: field_simps)
  ultimately show "2 powi e \<le> rnd a" by simp
qed

lemma rnd_nonneg: "0 < a \<Longrightarrow> 0 \<le> rnd a"
proof -
  assume "0 < a"
  then have "0 \<le> a / ulp a" by (intro divide_nonneg_nonneg) simp_all
  then have "rte (of_int 0) \<le> rte (a / ulp a)" by (intro rte_mono) simp
  then have "0 \<le> rte (a / ulp a)" by (simp only: rte_of_int)
  then show ?thesis by (simp add: rnd_def)
qed

lemma rnd_mono:
  assumes "0 < a" "a \<le> b"
  shows "rnd a \<le> rnd b"
proof -
  have b: "0 < b" using assms by simp
  let ?ea = "max (ilog2 a) (- 1022)" and ?eb = "max (ilog2 b) (- 1022)"
  have le: "?ea \<le> ?eb" using ilog2_mono [OF assms] by simp
  show ?thesis
  proof (cases "?ea = ?eb")
    case True
    then have u: "ulp a = ulp b" by (simp add: ulp_def)
    have "a / ulp b \<le> b / ulp b" using assms(2) by (rule div_ulp_mono)
    then have "rte (a / ulp b) \<le> rte (b / ulp b)" by (rule rte_mono)
    then have "(of_int (rte (a / ulp b)) :: real) \<le> of_int (rte (b / ulp b))" by simp
    then have "of_int (rte (a / ulp b)) * ulp b \<le> of_int (rte (b / ulp b)) * ulp b"
      by (rule mult_right_mono) simp
    then show ?thesis by (simp add: rnd_def u)
  next
    case False
    with le have lt: "?ea + 1 \<le> ?eb" by simp
    then have nb: "- 1022 \<le> ilog2 b" by (simp add: max_def split: if_splits)
    have "rnd a \<le> 2 powi (?ea + 1)" using rnd_binade(1) [OF assms(1)] .
    also have "\<dots> \<le> 2 powi ?eb" using lt by (rule pow2_mono)
    also have "\<dots> \<le> rnd b" using rnd_binade(2) [OF b nb] .
    finally show ?thesis .
  qed
qed

lemma rnd_0 [simp]: "rnd 0 = 0"
  using rte_of_int [of 0] by (simp add: rnd_def)

lemma rnd_mono0:
  assumes "0 \<le> a" "a \<le> b"
  shows "rnd a \<le> rnd b"
proof (cases "a = 0")
  case True
  show ?thesis
  proof (cases "b = 0")
    case False
    with assms have "0 < b" by simp
    then have "0 \<le> rnd b" by (rule rnd_nonneg)
    with True show ?thesis by simp
  qed (simp add: True)
next
  case False
  with assms(1) have "0 < a" by simp
  then show ?thesis using assms(2) by (rule rnd_mono)
qed

subsection \<open>Rounding to a Number\<close>

lemma fl_nonneg: "0 \<le> x \<Longrightarrow> rnd x < 2 powi 1024 \<Longrightarrow> fl x = Fin (rnd x)"
  by (simp add: fl_def)


lemma fl_neg: "x < 0 \<Longrightarrow> rnd (- x) < 2 powi 1024 \<Longrightarrow> fl x = Fin (- rnd (- x))"
  by (simp add: fl_def)

subsection \<open>The arithmetic of the progress percentage\<close>

lemma rnd_1: "rnd 1 = 1"
  by (simp add: rnd_def ulp_def rte_def ilog2.simps)

lemma rnd_100: "rnd 100 = 100"
  by (simp add: rnd_def ulp_def rte_def ilog2.simps)

lemma pow2_1024_big: "(100::real) < 2 powi 1024"
proof -
  have "(100::real) < 2 powi 7" by simp
  also have "\<dots> \<le> 2 powi 1024" by (rule pow2_mono) simp
  finally show ?thesis .
qed

lemma pct_quot_bounds:
  assumes "k \<le> N" "1 \<le> N"
  shows "0 \<le> pct_quot k N" "pct_quot k N \<le> 1"
proof -
  let ?a = "real k / real N"
  have a: "0 \<le> ?a" "?a \<le> 1" using assms by simp_all
  have "rnd ?a \<le> rnd 1" using a by (rule rnd_mono0)
  then show "pct_quot k N \<le> 1" by (simp add: pct_quot_def rnd_1)
  have "rnd 0 \<le> rnd ?a" using a(1) by (intro rnd_mono0) simp_all
  then show "0 \<le> pct_quot k N" by (simp add: pct_quot_def)
qed

lemma pct_prod_bounds:
  assumes "k \<le> N" "1 \<le> N"
  shows "0 \<le> pct_prod k N" "pct_prod k N \<le> 100"
proof -
  note q = pct_quot_bounds [OF assms]
  have "rnd (pct_quot k N * 100) \<le> rnd 100" using q by (intro rnd_mono0) simp_all
  then show "pct_prod k N \<le> 100" by (simp add: pct_prod_def rnd_100)
  have "rnd 0 \<le> rnd (pct_quot k N * 100)" using q by (intro rnd_mono0) simp_all
  then show "0 \<le> pct_prod k N" by (simp add: pct_prod_def)
qed

lemma progress_pct_eq:
  assumes "k \<le> N" "1 \<le> N"
  shows "progress_pct k N = Fin (of_int \<lfloor>pct_prod k N + 1 / 2\<rfloor>)"
proof -
  note q = pct_quot_bounds [OF assms] and b = pct_prod_bounds [OF assms]
  have "rnd (real k / real N) < 2 powi 1024"
    using q(2) pow2_1024_big by (simp add: pct_quot_def)
  then have 1: "jdiv (Fin (real k)) (Fin (real N)) = Fin (pct_quot k N)"
    using assms by (simp add: fl_nonneg pct_quot_def)
  have "rnd (pct_quot k N * 100) < 2 powi 1024"
    using b(2) pow2_1024_big by (simp add: pct_prod_def)
  then have 2: "jmul (Fin (pct_quot k N)) (Fin 100) = Fin (pct_prod k N)"
    using q(1) by (simp add: fl_nonneg pct_prod_def)
  show ?thesis unfolding progress_pct_def 1 2 by simp
qed

lemma pct_prod_mono:
  assumes "k \<le> k'" "k' \<le> N" "1 \<le> N"
  shows "pct_prod k N \<le> pct_prod k' N"
proof -
  have "real k / real N \<le> real k' / real N"
    using assms by (simp add: divide_right_mono)
  then have "pct_quot k N \<le> pct_quot k' N"
    unfolding pct_quot_def by (intro rnd_mono0) simp_all
  moreover have "0 \<le> pct_quot k N"
    using assms by (intro pct_quot_bounds) simp_all
  ultimately show ?thesis
    unfolding pct_prod_def by (intro rnd_mono0) simp_all
qed

lemma progress_pct_mono:
  assumes "k \<le> k'" "k' \<le> N" "1 \<le> N"
  shows "\<exists>p p'. progress_pct k N = Fin (of_int p) \<and> progress_pct k' N = Fin (of_int p') \<and> p \<le> p'"
proof -
  have k: "k \<le> N" using assms by simp
  have "\<lfloor>pct_prod k N + 1 / 2\<rfloor> \<le> \<lfloor>pct_prod k' N + 1 / 2\<rfloor>"
    using pct_prod_mono [OF assms] by (intro floor_mono) simp
  then show ?thesis
    using progress_pct_eq [OF k assms(3)] progress_pct_eq [OF assms(2,3)] by blast
qed

lemma progress_pct_full:
  assumes "1 \<le> N"
  shows "progress_pct N N = Fin 100"
proof -
  have "pct_quot N N = 1" using assms by (simp add: pct_quot_def rnd_1)
  then have "pct_prod N N = 100" by (simp add: pct_prod_def rnd_100)
  then show ?thesis using progress_pct_eq [of N N] assms by simp
qed

text \<open>The two roundings move the exact percentage by less than \<open>2^-45\<close>.\<close>

lemma pct_prod_err:
  assumes "1 \<le> k" "k \<le> N" "N < 2 ^ 32"
  shows "\<bar>pct_prod k N - 100 * real k / real N\<bar> \<le> 201 * 2 powi (- 53)"
proof -
  let ?a = "real k / real N" and ?u = "(2::real) powi (- 53)"
  have N: "1 \<le> N" using assms by simp
  have a: "0 < ?a" "?a \<le> 1" using assms by simp_all
  have "real N < 2 ^ 32" using assms(3) by (metis of_nat_less_iff of_nat_numeral of_nat_power)
  then have "1 / 2 ^ 32 < 1 / real N" using N by (simp add: field_simps)
  also have "\<dots> \<le> ?a" using assms by (simp add: field_simps)
  finally have lo: "1 / 2 ^ 32 < ?a" .
  have "(2::real) powi (- 1022) \<le> 2 powi (- 32)" by (rule pow2_mono) simp
  also have "\<dots> \<le> 1 / 2 ^ 32" by simp
  finally have small: "(2::real) powi (- 1022) \<le> 1 / 2 ^ 32" .
  from small lo have na: "2 powi (- 1022) \<le> ?a" by linarith
  have u: "0 < ?u" "?u \<le> 1 / 2" by simp_all
  have e1: "\<bar>pct_quot k N - ?a\<bar> \<le> ?a * ?u"
    unfolding pct_quot_def by (rule rnd_err_normal [OF na])
  have "?a * ?u \<le> ?a * (1 / 2)" using a(1) u(2) by (intro mult_left_mono) simp_all
  with e1 have qlo: "?a / 2 \<le> pct_quot k N" by (simp add: abs_le_iff)
  have "?a * ?u \<le> 1 * ?u" using a(2) by (intro mult_right_mono) simp_all
  with e1 have e1': "\<bar>pct_quot k N - ?a\<bar> \<le> ?u" by linarith
  have q1: "pct_quot k N \<le> 1" using assms(2) N by (rule pct_quot_bounds)
  have "2 powi (- 1022) \<le> 50 * (1 / 2 ^ 32 :: real)" using small by simp
  also have "\<dots> \<le> 50 * ?a" using lo by simp
  also have "\<dots> \<le> pct_quot k N * 100" using qlo by simp
  finally have nb: "2 powi (- 1022) \<le> pct_quot k N * 100" .
  have e2: "\<bar>pct_prod k N - pct_quot k N * 100\<bar> \<le> pct_quot k N * 100 * ?u"
    unfolding pct_prod_def by (rule rnd_err_normal [OF nb])
  have "pct_quot k N * 100 * ?u \<le> 1 * 100 * ?u"
    using q1 by (intro mult_right_mono) simp_all
  with e2 have e2': "\<bar>pct_prod k N - pct_quot k N * 100\<bar> \<le> 100 * ?u" by linarith
  have "\<bar>pct_prod k N - 100 * ?a\<bar> \<le> \<bar>pct_prod k N - pct_quot k N * 100\<bar> + 100 * \<bar>pct_quot k N - ?a\<bar>"
    by (simp add: abs_le_iff abs_if) 
  with e1' e2' have "\<bar>pct_prod k N - 100 * ?a\<bar> \<le> 200 * ?u" by linarith
  also have "\<dots> \<le> 201 * ?u" by simp
  finally show ?thesis by simp
qed

text \<open>
  \<open>100 k / N + 1/2\<close> is a multiple of \<open>1 / (2 N)\<close>, so an error below that step can move
  its floor only where it is an integer: where \<open>100 k / N\<close> lies halfway between two
  integers.
\<close>

lemma progress_pct_value:
  assumes "1 \<le> k" "k \<le> N" "N < 2 ^ 32"
  shows "progress_pct k N = Fin (of_int \<lfloor>100 * real k / real N + 1 / 2\<rfloor>) \<or>
         progress_pct k N = Fin (of_int (\<lfloor>100 * real k / real N + 1 / 2\<rfloor> - 1)) \<and>
         200 * int k + int N = 2 * int N * \<lfloor>100 * real k / real N + 1 / 2\<rfloor>"
proof -
  define x where "x = 100 * real k / real N"
  define r where "r = \<lfloor>x + 1 / 2\<rfloor>"
  define b where "b = pct_prod k N"
  define m where "m = 200 * int k + int N - 2 * int N * r"
  define d where "d = (201::real) * 2 powi (- 53)"
  have N: "1 \<le> N" using assms by simp
  have Nr: "0 < real N" using N by simp
  have eq: "progress_pct k N = Fin (of_int \<lfloor>b + 1 / 2\<rfloor>)"
    unfolding b_def using assms(2) N by (rule progress_pct_eq)
  have err: "\<bar>b - x\<bar> \<le> d"
    unfolding b_def x_def d_def using assms by (rule pct_prod_err)
  have "real N < 2 ^ 32" using assms(3) by (metis of_nat_less_iff of_nat_numeral of_nat_power)
  then have "2 * real N < 2 ^ 33" by simp
  then have "1 / 2 ^ 33 < 1 / (2 * real N)" using Nr by (simp add: field_simps)
  moreover have "d < 1 / 2 ^ 33" by (simp add: d_def)
  ultimately have d: "d < 1 / (2 * real N)" by linarith
  have d1: "d < 1" using d by (simp add: d_def)
  have xm: "x + 1 / 2 = of_int r + of_int m / (2 * real N)"
    using Nr by (simp add: x_def m_def field_simps)
  have "of_int r \<le> x + 1 / 2" "x + 1 / 2 < of_int r + 1"
    unfolding r_def by linarith+
  then have "0 \<le> of_int m / (2 * real N)" "of_int m / (2 * real N) < 1"
    unfolding xm by simp_all
  then have "0 \<le> real_of_int m" "real_of_int m < 2 * real N"
    using Nr by (simp_all add: field_simps)
  then have m: "0 \<le> m" "real_of_int m + 1 \<le> 2 * real N"
  proof -
    assume "0 \<le> real_of_int m" then show "0 \<le> m" by simp
    assume "real_of_int m < 2 * real N"
    then have "real_of_int m < real_of_int (2 * int N)" by simp
    then have "m < 2 * int N" by (simp only: of_int_less_iff)
    then have "m + 1 \<le> 2 * int N" by simp
    then have "real_of_int (m + 1) \<le> real_of_int (2 * int N)" by (simp only: of_int_le_iff)
    then show "real_of_int m + 1 \<le> 2 * real N" by simp
  qed
  have "of_int m / (2 * real N) \<le> (2 * real N - 1) / (2 * real N)"
    using m(2) Nr by (intro divide_right_mono) simp_all
  also have "\<dots> = 1 - 1 / (2 * real N)" using Nr by (simp add: field_simps)
  finally have "x + 1 / 2 \<le> of_int r + 1 - 1 / (2 * real N)" unfolding xm by simp
  with err d have up: "b + 1 / 2 < of_int r + 1" by (simp add: abs_le_iff)
  show ?thesis
  proof (cases "m = 0")
    case True
    then have tie: "200 * int k + int N = 2 * int N * r" by (simp add: m_def)
    from True have "x + 1 / 2 = of_int r" by (simp add: xm)
    with err d1 have "of_int (r - 1) \<le> b + 1 / 2" by (simp add: abs_le_iff)
    with up have "\<lfloor>b + 1 / 2\<rfloor> = r \<or> \<lfloor>b + 1 / 2\<rfloor> = r - 1" by linarith
    with eq tie show ?thesis unfolding r_def x_def by auto
  next
    case False
    with m(1) have "1 \<le> m" by simp
    then have "1 \<le> real_of_int m" by simp
    then have "1 / (2 * real N) \<le> of_int m / (2 * real N)"
      using Nr by (intro divide_right_mono) simp_all
    then have "of_int r + 1 / (2 * real N) \<le> x + 1 / 2" unfolding xm by simp
    with err d have "of_int r \<le> b + 1 / 2" by (simp add: abs_le_iff)
    with up have "\<lfloor>b + 1 / 2\<rfloor> = r" by linarith
    with eq show ?thesis unfolding r_def x_def by simp
  qed
qed

section \<open>The progress report\<close>

lemma loaded_step: "loaded (step s e) = loaded s \<or> loaded (step s e) = Suc (loaded s)"
proof (induction s e rule: step_cases)
  case (secondary l i g)
  show ?case
  proof (cases "globalOffset (settled l s)")
    case None
    then show ?thesis by (simp add: onSecondary_threw)
  next
    case (Some off)
    then show ?thesis by (simp add: onSecondary_fields)
  qed
qed (simp_all add: onBase_fields onKey_unchanged onError_eq keydown_eq keyup_eq split: option.splits)

lemma issued_none:
  assumes "inv_ids s"
  shows "filter (\<lambda>p. nextLoad s \<le> fst p) (filter q (pending s)) = []"
  using assms by (auto simp: inv_ids_def filter_empty_conv)

lemma issued_all: "filter (\<lambda>p. n \<le> fst p) (enumerate n xs) = enumerate n xs"
  by (auto simp: filter_id_conv in_set_enumerate_eq)

lemma key_loads_of_key_off: "filter (\<lambda>k. \<not> is_asset_load k) (key_off_loads s) = key_off_loads s"
  by (auto simp: filter_id_conv key_off_loads_def is_asset_load_def)

lemma key_loads_of_secondary: "filter (\<lambda>k. \<not> is_asset_load k) (map SecondaryLoad xs) = []"
  by (auto simp: filter_empty_conv is_asset_load_def)

lemma key_off_loads_settled [simp]: "key_off_loads (settled l s) = key_off_loads s"
  by (simp add: key_off_loads_def)

lemma issued_callback:
  assumes inv: "inv_all s" and cb: "is_callback e"
  shows "filter (\<lambda>k. \<not> is_asset_load k) (issued s e) =
           (if Suc (loaded s) = length (modelPaths s) \<and> loaded (step s e) = Suc (loaded s)
            then key_off_loads s else [])"
proof -
  from inv have ids: "inv_ids s" by (simp add: inv_all_def)
  have old: "filter (\<lambda>p. nextLoad s \<le> fst p) (pending (settled l s)) = []" for l
    using issued_none [OF ids] by (simp add: settled_def)
  have old': "filter (\<lambda>x. fst x \<noteq> l \<and> nextLoad s \<le> fst x) (pending s) = []" for l
    using ids by (auto simp: inv_ids_def filter_empty_conv)
  have same: "filter (\<lambda>p. nextLoad s \<le> fst p) (pending s) = []"
    using issued_none [OF ids, of "\<lambda>p. True"] by simp
  show ?thesis
  proof (cases e)
    case (Loaded l g)
    show ?thesis
    proof (cases "map_of (pending s) l")
      case None
      then show ?thesis by (simp add: Loaded issued_def step.simps take_pending_def same)
    next
      case (Some k)
      show ?thesis
      proof (cases k)
        case BaseLoad
        with Some have st: "step s e = loadModels_onBase g (settled l s)"
          by (simp add: Loaded step.simps take_pending_def)
        show ?thesis
          by (simp add: issued_def st onBase_fields old old' issued_all key_loads_of_key_off
              key_loads_of_secondary)
      next
        case (SecondaryLoad i)
        with Some have st: "step s e = loadModels_onSecondary i g (settled l s)"
          by (simp add: Loaded step.simps take_pending_def)
        show ?thesis
        proof (cases "globalOffset s")
          case None
          then show ?thesis by (simp add: issued_def st onSecondary_threw old old')
        next
          case (Some off)
          then have "globalOffset (settled l s) = Some off" by simp
          from onSecondary_fields(6,14) [OF this] show ?thesis
            by (simp add: issued_def st old old' issued_all key_loads_of_key_off)
        qed
      next
        case (KeyLoad c p)
        with Some have st: "step s e = loadKeyModel_onLoad c p g (settled l s)"
          by (simp add: Loaded step.simps take_pending_def)
        show ?thesis by (simp add: issued_def st onKey_unchanged old old')
      qed
    qed
  next
    case (Failed l)
    show ?thesis
      by (cases "map_of (pending s) l")
        (simp_all add: Failed issued_def step.simps take_pending_def same onError_eq old old')
  next
    case (KeyDown c)
    with cb show ?thesis by simp
  next
    case (KeyUp c)
    with cb show ?thesis by simp
  qed
qed

text \<open>
  C5. As claimed, the percentage would be \<open>100 k / N\<close> rounded to the nearest integer. The
  code rounds twice before \<open>Math.round\<close>: the quotient \<open>k / N\<close> to a double, and its product
  with 100 to a double. For \<open>k = 23\<close> of \<open>N = 40\<close> the exact value is 57.5, which rounds to 58;
  the double nearest to \<open>23 / 40\<close> lies below it, its product with 100 rounds to the double
  just below 57.5, and the reported percentage is 57.
\<close>

theorem progress_pct_counterexample:
  "progress_pct 23 40 = Fin 57 \<and> js_round (Fin (100 * 23 / 40)) = Fin 58"
  by (simp add: progress_pct_def fl_def rnd_def ulp_def rte_def ilog2.simps Let_def)

text \<open>
  C5, amended. In a session of \<open>N\<close> asset paths, \<open>1 \<le> N < 2^32\<close>, in any order of
  callbacks and key events: the counter never exceeds \<open>N\<close>, a step leaves it or adds one, and
  once it is \<open>k > 0\<close> the reported percentage is \<open>Math.round((k / N) * 100)\<close> in double
  arithmetic. For \<open>1 \<le> k \<le> N\<close> that number is \<open>100 k / N\<close> rounded to the nearest integer,
  a tie going up, except that where \<open>100 k / N\<close> lies exactly halfway between two integers
  it may be the lower one. It does not decrease as \<open>k\<close> grows, and is 100 for \<open>k = N\<close>. The
  overlay is hidden exactly in the states whose counter is \<open>N\<close>, and a callback of the loader
  issues key loads exactly when it brings the counter to \<open>N\<close>: then the off variant of every
  slot, in the order of the slots.
\<close>

theorem progress_reported:
  assumes "s = run (init cfg) es" and "N = length (cfg_modelPaths cfg)"
    and "1 \<le> N" and "N < 2 ^ 32"
  shows "loaded s \<le> N \<and>
    (loaded (step s e) = loaded s \<or> loaded (step s e) = Suc (loaded s)) \<and>
    progressWidth s = (if loaded s = 0 then None else Some (progress_pct (loaded s) N)) \<and>
    (\<forall>k. 1 \<le> k \<and> k \<le> N \<longrightarrow>
       progress_pct k N = Fin (of_int \<lfloor>100 * real k / real N + 1 / 2\<rfloor>) \<or>
       progress_pct k N = Fin (of_int (\<lfloor>100 * real k / real N + 1 / 2\<rfloor> - 1)) \<and>
       200 * int k + int N = 2 * int N * \<lfloor>100 * real k / real N + 1 / 2\<rfloor>) \<and>
    (\<forall>k k'. k \<le> k' \<and> k' \<le> N \<longrightarrow>
       (\<exists>p p'. progress_pct k N = Fin (of_int p) \<and> progress_pct k' N = Fin (of_int p') \<and> p \<le> p')) \<and>
    progress_pct N N = Fin 100 \<and>
    (overlayHidden s \<longleftrightarrow> loaded s = N) \<and>
    (is_callback e \<longrightarrow>
       filter (\<lambda>k. \<not> is_asset_load k) (issued s e) =
         (if loaded s < N \<and> loaded (step s e) = N then key_off_loads s else []))"
proof -
  have inv: "inv_all s" unfolding assms(1) by (rule inv_reach)
  then have cnt: "inv_count s" by (simp add: inv_all_def)
  have N: "length (modelPaths s) = N"
    by (simp add: assms(1,2) run_constants init_fields)
  note d = inv_countD [OF cnt]
  have 1: "loaded s \<le> N" using d(5) assms(3) by (simp add: N)
  have 2: "loaded (step s e) = loaded s \<or> loaded (step s e) = Suc (loaded s)"
    by (rule loaded_step)
  have 3: "progressWidth s = (if loaded s = 0 then None else Some (progress_pct (loaded s) N))"
    using d(9) by (simp add: N)
  have 4: "progress_pct k N = Fin (of_int \<lfloor>100 * real k / real N + 1 / 2\<rfloor>) \<or>
       progress_pct k N = Fin (of_int (\<lfloor>100 * real k / real N + 1 / 2\<rfloor> - 1)) \<and>
       200 * int k + int N = 2 * int N * \<lfloor>100 * real k / real N + 1 / 2\<rfloor>"
    if "1 \<le> k \<and> k \<le> N" for k
    using that assms(4) by (intro progress_pct_value) simp_all
  have 5: "\<exists>p p'. progress_pct k N = Fin (of_int p) \<and> progress_pct k' N = Fin (of_int p') \<and> p \<le> p'"
    if "k \<le> k' \<and> k' \<le> N" for k k'
    using that assms(3) by (intro progress_pct_mono) simp_all
  have 6: "progress_pct N N = Fin 100" using assms(3) by (rule progress_pct_full)
  have 7: "overlayHidden s \<longleftrightarrow> loaded s = N"
    using d(6,7,8) assms(3) by (auto simp: N)
  have 8: "filter (\<lambda>k. \<not> is_asset_load k) (issued s e) =
         (if loaded s < N \<and> loaded (step s e) = N then key_off_loads s else [])"
    if "is_callback e"
  proof -
    have "(Suc (loaded s) = N \<and> loaded (step s e) = Suc (loaded s)) =
          (loaded s < N \<and> loaded (step s e) = N)"
      using 2 by auto
    with issued_callback [OF inv that] show ?thesis by (simp add: N)
  qed
  from 1 2 3 4 5 6 7 8 show ?thesis by blast
qed

theorem progress_reported_witness:
  "loaded example_base_loaded \<le> 2 \<and>
   loaded (step example_base_loaded (Loaded 1 example_part)) = 2 \<and>
   progressWidth example_base_loaded = Some (progress_pct 1 2) \<and>
   progress_pct 1 2 = Fin 50 \<and>
   progress_pct 2 2 = Fin 100 \<and>
   \<not> overlayHidden example_base_loaded \<and>
   issued example_base_loaded (Loaded 1 example_part) = [KeyLoad ''Digit1'' ''light_off.glb'']"
proof -
  have r: "example_base_loaded = run (init example_cfg) [Loaded 0 example_base]"
    by (simp only: run_Cons run_Nil example_step1)
  have n: "(2::nat) = length (cfg_modelPaths example_cfg)"
    by (simp add: example_cfg_def)
  have b: "(1::nat) \<le> 2" "(2::nat) < 2 ^ 32" by simp_all
  note t = progress_reported [OF r n b, of "Loaded 1 example_part"]
  have l: "loaded example_base_loaded = 1" by (simp add: example_base_loaded_def)
  have l2: "loaded (step example_base_loaded (Loaded 1 example_part)) = 2"
    unfolding example_step2 by (simp add: example_all_loaded_def)
  have k: "key_off_loads example_base_loaded = [KeyLoad ''Digit1'' ''light_off.glb'']"
    by (simp add: key_off_loads_def example_base_loaded_def)
  have i: "issued example_base_loaded (Loaded 1 example_part) = [KeyLoad ''Digit1'' ''light_off.glb'']"
    unfolding issued_def example_step2
    by (simp add: example_all_loaded_def example_base_loaded_def)
  from t have "progress_pct 1 2 = Fin (of_int \<lfloor>100 * real 1 / real 2 + 1 / 2\<rfloor>) \<or>
       progress_pct 1 2 = Fin (of_int (\<lfloor>100 * real 1 / real 2 + 1 / 2\<rfloor> - 1)) \<and>
       200 * int 1 + int 2 = 2 * int 2 * \<lfloor>100 * real 1 / real 2 + 1 / 2\<rfloor>"
    by (elim conjE allE [of _ 1]) simp
  then have p: "progress_pct 1 2 = Fin 50" by simp
  from t l l2 p i show ?thesis by simp
qed

subsection \<open>Doubles round to themselves\<close>








subsection \<open>The arithmetic of the normalization frame\<close>



section \<open>The normalization frame of the base asset\<close>





end
